theory Spec2Isabelle
  imports Complex_Main "HOL-Library.AList" "HOL-Library.Sublist" "HOL-Library.Multiset"
begin

section \<open>Water-body candidates: grouping, ordering, distance and its formatting\<close>

text \<open>
  A shallow embedding of the water-body search utilities of the mobile client:
  \<^item> \<^verbatim>\<open>getGroupedCandidates\<close> (utils/waterBodyGrouping), the grouper;
  \<^item> the result list rendered by \<^verbatim>\<open>WaterBodySelectionList\<close>;
  \<^item> the distance sort at the end of \<^verbatim>\<open>searchCombined\<close>;
  \<^item> \<^verbatim>\<open>calculateDistance\<close> and \<^verbatim>\<open>formatDistance\<close> of the water-body service.

  In the grouper, the sort and \<^verbatim>\<open>formatDistance\<close> a JavaScript number is the real number
  it denotes (every finite double is a rational), with the rounding of a division written
  out where the code divides. \<^verbatim>\<open>calculateDistance\<close> is modelled in double arithmetic:
  every operation rounds, and a number can be \<^verbatim>\<open>NaN\<close> or infinite. An optional field is an
  \<open>option\<close>: \<open>None\<close> stands for \<^verbatim>\<open>undefined\<close> and \<^verbatim>\<open>null\<close>.
\<close>

type_synonym number = real

subsection \<open>Data model\<close>

text \<open>
  The fields of a search result that the grouper and the selection list read. The type is
  declared in the shared package; the fields are those the code and its tests use
  (\<^verbatim>\<open>osmData\<close>, an opaque payload that is only passed on, is left out).
\<close>

record WaterBodySearchResult =
  source :: string
  sharedWaterBodyId :: "string option"
  sectionId :: "string option"
  sectionIndex :: "number option"
  sectionName :: "string option"
  name :: string
  type :: "string option"
  distance :: "number option"
  osmId :: "string option"

text \<open>
  The entries of \<^verbatim>\<open>GroupedWaterBody.sections\<close>. The field names carry the suffix
  \<open>_s\<close> (and those of the group \<open>_g\<close>) where the source reuses a name of the search result.
\<close>

record Section =
  sectionIndex_s :: number
  sectionId_s :: string
  sectionName_s :: string
  candidate :: WaterBodySearchResult

record GroupedWaterBody =
  waterBodyId :: string
  name_g :: string
  type_g :: "string option"
  distance_g :: "number option"
  sections :: "Section list"

record GroupedCandidatesResult =
  groups :: "GroupedWaterBody list"
  osmCandidates :: "WaterBodySearchResult list"

subsection \<open>JavaScript values\<close>

text \<open>
  \<^verbatim>\<open>x || d\<close> yields \<^verbatim>\<open>d\<close> when \<^verbatim>\<open>x\<close> is falsy: \<^verbatim>\<open>undefined\<close>, the empty string,
  or the number \<^verbatim>\<open>0\<close>.
\<close>

definition str_or :: "string option \<Rightarrow> string \<Rightarrow> string" where
  "str_or x d = (case x of None \<Rightarrow> d | Some s \<Rightarrow> if s = [] then d else s)"

definition num_or :: "number option \<Rightarrow> number \<Rightarrow> number" where
  "num_or x d = (case x of None \<Rightarrow> d | Some n \<Rightarrow> if n = 0 then d else n)"

text \<open>
  A JavaScript \<^verbatim>\<open>Map\<close> iterates in insertion order and \<^verbatim>\<open>set\<close> on a present key
  keeps the key's position: an association list with \<^const>\<open>AList.update\<close>.
\<close>

type_synonym ('k, 'v) js_map = "('k \<times> 'v) list"

definition map_has :: "('k, 'v) js_map \<Rightarrow> 'k \<Rightarrow> bool" where
  "map_has m k = (map_of m k \<noteq> None)"

definition map_get :: "('k, 'v) js_map \<Rightarrow> 'k \<Rightarrow> 'v option" where
  "map_get m k = map_of m k"

definition map_set :: "('k, 'v) js_map \<Rightarrow> 'k \<Rightarrow> 'v \<Rightarrow> ('k, 'v) js_map" where
  "map_set m k v = AList.update k v m"

definition map_values :: "('k, 'v) js_map \<Rightarrow> 'v list" where
  "map_values m = map snd m"

subsection \<open>The grouper\<close>

text \<open>
  The only statement of \<^verbatim>\<open>getGroupedCandidates\<close> that could throw is
  \<^verbatim>\<open>group.sections.push\<close>, on a \<^verbatim>\<open>group\<close> that \<^verbatim>\<open>groups.get\<close> did not find.
\<close>

datatype error = TypeError

type_synonym grouper_state =
  "(string, GroupedWaterBody) js_map \<times> WaterBodySearchResult list"

text \<open>One iteration of the \<^verbatim>\<open>for ... of\<close> loop; each \<^verbatim>\<open>continue\<close> returns the state.\<close>

definition loop_body ::
  "bool \<Rightarrow> grouper_state \<Rightarrow> WaterBodySearchResult \<Rightarrow> error + grouper_state" where
  "loop_body showOSM st c =
     (case st of (grps, osm) \<Rightarrow>
        let isOSM = (source c = ''osm'') in
        if isOSM \<and> \<not> showOSM then Inr (grps, osm)
        else if isOSM then Inr (grps, osm @ [c])
        else (case sharedWaterBodyId c of
            None \<Rightarrow> Inr (grps, osm)
          | Some wbId \<Rightarrow>
              if wbId = [] then Inr (grps, osm)
              else
                let grps1 =
                  (if \<not> map_has grps wbId
                   then map_set grps wbId
                          \<lparr>waterBodyId = wbId, name_g = name c, type_g = type c,
                           distance_g = distance c, sections = []\<rparr>
                   else grps)
                in (case sectionName c of
                    None \<Rightarrow> Inr (grps1, osm)
                  | Some sn \<Rightarrow>
                      if sn = [] then Inr (grps1, osm)
                      else (case map_get grps1 wbId of
                          None \<Rightarrow> Inl TypeError
                        | Some grp \<Rightarrow>
                            Inr (map_set grps1 wbId
                                   (grp\<lparr>sections := sections grp @
                                      [\<lparr>sectionIndex_s = num_or (sectionIndex c) 0,
                                        sectionId_s = str_or (sectionId c) [],
                                        sectionName_s = sn,
                                        candidate = c\<rparr>]\<rparr>),
                                 osm)))))"

fun loop ::
  "bool \<Rightarrow> grouper_state \<Rightarrow> WaterBodySearchResult list \<Rightarrow> error + grouper_state" where
  "loop showOSM st [] = Inr st"
| "loop showOSM st (c # cs) =
     (case loop_body showOSM st c of
        Inl e \<Rightarrow> Inl e
      | Inr st' \<Rightarrow> loop showOSM st' cs)"

definition getGroupedCandidates ::
  "WaterBodySearchResult list \<Rightarrow> bool \<Rightarrow> error + GroupedCandidatesResult" where
  "getGroupedCandidates candidates showOSM =
     (case loop showOSM ([], []) candidates of
        Inl e \<Rightarrow> Inl e
      | Inr (grps, osm) \<Rightarrow> Inr \<lparr>groups = map_values grps, osmCandidates = osm\<rparr>)"

subsection \<open>The rendered result list\<close>

text \<open>
  What \<^verbatim>\<open>WaterBodySelectionList\<close> puts into its scroll view once loading has
  finished without an error: the empty-state message, or one card per group followed by
  one card per OSM candidate (keyed by its index).
\<close>

datatype card = NoResults | WaterBodyGroup GroupedWaterBody | OsmCard nat WaterBodySearchResult

definition resultCards :: "GroupedCandidatesResult \<Rightarrow> card list" where
  "resultCards r =
     (let totalResults = length (groups r) + length (osmCandidates r) in
      if totalResults = 0 then [NoResults]
      else map WaterBodyGroup (groups r) @
           map (\<lambda>(index, c). OsmCard index c) (enumerate 0 (osmCandidates r)))"

subsection \<open>What the grouper is expected to compute\<close>

text \<open>
  The key under which the loop files a candidate, if any: none for an OSM candidate,
  none when \<^verbatim>\<open>sharedWaterBodyId\<close> is falsy (absent or empty).
\<close>

definition groupingKey :: "WaterBodySearchResult \<Rightarrow> string option" where
  "groupingKey c =
     (if source c = ''osm'' then None
      else case sharedWaterBodyId c of
          None \<Rightarrow> None
        | Some w \<Rightarrow> if w = [] then None else Some w)"

definition communityIds :: "WaterBodySearchResult list \<Rightarrow> string list" where
  "communityIds cs = List.map_filter groupingKey cs"

text \<open>The distinct elements of a list, each at the place of its first occurrence.\<close>

function firstSeen :: "'a list \<Rightarrow> 'a list" where
  "firstSeen [] = []"
| "firstSeen (x # xs) = x # firstSeen (filter (\<lambda>y. y \<noteq> x) xs)"
  by pat_completeness auto
termination
  by (relation "measure length") (auto simp: less_Suc_eq_le)

text \<open>The section entry a candidate contributes: none when \<^verbatim>\<open>sectionName\<close> is falsy.\<close>

definition sectionEntry :: "WaterBodySearchResult \<Rightarrow> Section option" where
  "sectionEntry c =
     (case sectionName c of
        None \<Rightarrow> None
      | Some sn \<Rightarrow>
          if sn = [] then None
          else Some \<lparr>sectionIndex_s = num_or (sectionIndex c) 0,
                     sectionId_s = str_or (sectionId c) [],
                     sectionName_s = sn, candidate = c\<rparr>)"

definition sectionsFor :: "WaterBodySearchResult list \<Rightarrow> string \<Rightarrow> Section list" where
  "sectionsFor cs k =
     List.map_filter sectionEntry (filter (\<lambda>c. groupingKey c = Some k) cs)"

text \<open>
  The group of key \<open>k\<close>: header fields from the first candidate filed under \<open>k\<close>,
  sections from all of them.
\<close>

definition groupFor :: "WaterBodySearchResult list \<Rightarrow> string \<Rightarrow> GroupedWaterBody option" where
  "groupFor cs k =
     (case find (\<lambda>c. groupingKey c = Some k) cs of
        None \<Rightarrow> None
      | Some c0 \<Rightarrow>
          Some \<lparr>waterBodyId = k, name_g = name c0, type_g = type c0,
                distance_g = distance c0, sections = sectionsFor cs k\<rparr>)"

definition expectedGroups :: "WaterBodySearchResult list \<Rightarrow> GroupedWaterBody list" where
  "expectedGroups cs = List.map_filter (groupFor cs) (firstSeen (communityIds cs))"

definition externalOf :: "bool \<Rightarrow> WaterBodySearchResult list \<Rightarrow> WaterBodySearchResult list" where
  "externalOf showOSM cs = (if showOSM then filter (\<lambda>c. source c = ''osm'') cs else [])"


text \<open>The state of the loop after the candidates \<open>cs\<close>.\<close>

definition grouper_inv :: "bool \<Rightarrow> WaterBodySearchResult list \<Rightarrow> grouper_state \<Rightarrow> bool" where
  "grouper_inv showOSM cs st \<longleftrightarrow>
     snd st = externalOf showOSM cs \<and>
     map fst (fst st) = firstSeen (communityIds cs) \<and>
     (\<forall>(k, g) \<in> set (fst st). groupFor cs k = Some g)"

subsection \<open>The distance sort of searchCombined\<close>

text \<open>
  The service's own declaration of a search result (\<^verbatim>\<open>type\<close>, \<^verbatim>\<open>id\<close>, \<^verbatim>\<open>name\<close>,
  \<^verbatim>\<open>distance?\<close>); the nested \<^verbatim>\<open>sharedWaterBody\<close> and \<^verbatim>\<open>section\<close> objects, which the
  sort does not read, are left out. A distance that is present is a finite number. The
  comparators below subtract exactly: the double difference of two finite doubles has the
  sign of their exact difference (it is zero only for equal operands), and the sort reads
  only the sign of a comparator's result.
\<close>

record ServiceSearchResult =
  type_r :: string
  id_r :: string
  name_r :: string
  distance_r :: "number option"

text \<open>
  ECMAScript fixes the result of \<^verbatim>\<open>Array.prototype.sort\<close> only when the comparator is a
  \<^emph>\<open>consistent comparator\<close> for the elements of the array. With \<open>a =\<^sub>C b\<close> for
  \<^verbatim>\<open>cmp(a, b) = 0\<close>, \<open>a <\<^sub>C b\<close> for \<^verbatim>\<open>cmp(a, b) < 0\<close> and \<open>a >\<^sub>C b\<close> for \<^verbatim>\<open>cmp(a, b) > 0\<close>, it
  asks for \<open>a =\<^sub>C a\<close>, for \<open>b =\<^sub>C a\<close> whenever \<open>a =\<^sub>C b\<close>, and for the transitivity of
  \<open>=\<^sub>C\<close>, of \<open><\<^sub>C\<close> and of \<open>>\<^sub>C\<close>, for all elements \<open>a\<close>, \<open>b\<close>, \<open>c\<close> of the array. (Its
  first requirement, the same number and never \<^verbatim>\<open>NaN\<close> for the same pair, holds of every
  comparator of this type.)
\<close>

definition consistent_comparator :: "('a \<Rightarrow> 'a \<Rightarrow> number) \<Rightarrow> 'a list \<Rightarrow> bool" where
  "consistent_comparator cmp S \<longleftrightarrow>
     (\<forall>a \<in> set S. cmp a a = 0) \<and>
     (\<forall>a \<in> set S. \<forall>b \<in> set S. cmp a b = 0 \<longrightarrow> cmp b a = 0) \<and>
     (\<forall>a \<in> set S. \<forall>b \<in> set S. \<forall>c \<in> set S. cmp a b = 0 \<and> cmp b c = 0 \<longrightarrow> cmp a c = 0) \<and>
     (\<forall>a \<in> set S. \<forall>b \<in> set S. \<forall>c \<in> set S. cmp a b < 0 \<and> cmp b c < 0 \<longrightarrow> cmp a c < 0) \<and>
     (\<forall>a \<in> set S. \<forall>b \<in> set S. \<forall>c \<in> set S. cmp a b > 0 \<and> cmp b c > 0 \<longrightarrow> cmp a c > 0)"

text \<open>
  \<^verbatim>\<open>Array.prototype.sort\<close> with a comparator. With a consistent comparator the sort is
  ascending and stable, which determines its result: the list that insertion from the
  right builds. With an inconsistent comparator ECMAScript leaves the sort order to the
  implementation: the result is \<open>None\<close> then, and the model says nothing about the
  order an engine chooses.
\<close>

fun insert_by :: "('a \<Rightarrow> 'a \<Rightarrow> number) \<Rightarrow> 'a \<Rightarrow> 'a list \<Rightarrow> 'a list" where
  "insert_by cmp x [] = [x]"
| "insert_by cmp x (y # ys) =
     (if cmp x y \<le> 0 then x # y # ys else y # insert_by cmp x ys)"

definition Array_sort :: "('a \<Rightarrow> 'a \<Rightarrow> number) \<Rightarrow> 'a list \<Rightarrow> 'a list option" where
  "Array_sort cmp xs =
     (if consistent_comparator cmp xs then Some (foldr (insert_by cmp) xs []) else None)"

text \<open>\<^verbatim>\<open>(a, b) => (a.distance || 0) - (b.distance || 0)\<close> (waterBodyService.ts).\<close>

definition compareDistanceOrZero :: "ServiceSearchResult \<Rightarrow> ServiceSearchResult \<Rightarrow> number" where
  "compareDistanceOrZero a b = num_or (distance_r a) 0 - num_or (distance_r b) 0"

text \<open>
  The later comparator: \<^verbatim>\<open>a.distance - b.distance\<close> when both are defined,
  \<^verbatim>\<open>0\<close> otherwise.
\<close>

definition compareDistanceIfDefined :: "ServiceSearchResult \<Rightarrow> ServiceSearchResult \<Rightarrow> number" where
  "compareDistanceIfDefined a b =
     (case distance_r a of
        None \<Rightarrow> 0
      | Some da \<Rightarrow> (case distance_r b of None \<Rightarrow> 0 | Some db \<Rightarrow> da - db))"

definition sortResults :: "ServiceSearchResult list \<Rightarrow> ServiceSearchResult list option" where
  "sortResults results = Array_sort compareDistanceOrZero results"

definition sortResultsIfDefined :: "ServiceSearchResult list \<Rightarrow> ServiceSearchResult list option" where
  "sortResultsIfDefined results = Array_sort compareDistanceIfDefined results"

text \<open>The key of the first sort, \<^verbatim>\<open>r.distance || 0\<close>.\<close>

definition distanceOrZero :: "ServiceSearchResult \<Rightarrow> number" where
  "distanceOrZero r = num_or (distance_r r) 0"

definition result_at :: "string \<Rightarrow> number option \<Rightarrow> ServiceSearchResult" where
  "result_at i d = \<lparr>type_r = ''shared'', id_r = i, name_r = i, distance_r = d\<rparr>"

subsection \<open>Numbers as text\<close>

text \<open>The decimal digits of a natural number.\<close>

definition digit_char :: "nat \<Rightarrow> char" where
  "digit_char d = char_of (48 + d)"

fun digits :: "nat \<Rightarrow> string" where
  "digits n = (if n < 10 then [digit_char n] else digits (n div 10) @ [digit_char (n mod 10)])"

declare digits.simps [simp del]

text \<open>
  \<^verbatim>\<open>Math.round\<close>: the nearest integer, the larger one of two equally near.
\<close>

definition Math_round :: "number \<Rightarrow> int" where
  "Math_round x = \<lfloor>x + 1 / 2\<rfloor>"

text \<open>
  The double nearest to a real \<open>x \<ge> 1\<close> (round to nearest, ties to even, 53 significant
  bits; below the overflow threshold). \<^verbatim>\<open>formatDistance\<close> divides only when
  \<^verbatim>\<open>meters >= 1000\<close>, so its quotients are in this range.
\<close>

fun ilog2 :: "nat \<Rightarrow> nat" where
  "ilog2 n = (if n < 2 then 0 else Suc (ilog2 (n div 2)))"

declare ilog2.simps [simp del]

definition round_half_even :: "real \<Rightarrow> int" where
  "round_half_even y =
     (let n = \<lfloor>y\<rfloor>; r = y - of_int n in
      if r < 1 / 2 then n else if 1 / 2 < r then n + 1
      else if even n then n else n + 1)"

definition to_double :: "real \<Rightarrow> number" where
  "to_double x =
     (let ulp = 2 ^ ilog2 (nat \<lfloor>x\<rfloor>) / 2 ^ 52 in
      of_int (round_half_even (x / ulp)) * ulp)"

definition divide_double :: "number \<Rightarrow> number \<Rightarrow> number" where
  "divide_double a b = to_double (a / b)"

text \<open>
  \<^verbatim>\<open>Number::toString\<close> of a non-negative integer-valued double \<open>n\<close>. Up to \<open>2\<^sup>5\<^sup>3\<close>
  these are the decimal digits of \<open>n\<close>. Beyond, ECMAScript takes the shortest digit
  string \<open>s\<close> (of \<open>k\<close> digits) and exponent \<open>e\<close> with \<open>s \<times> 10\<^bsup>e-k\<^esup>\<close> rounding to \<open>n\<close>,
  the one nearest to \<open>n\<close>; it prints \<open>s\<close> followed by zeros when \<open>e \<le> 21\<close> and
  exponent notation otherwise.
\<close>

text \<open>
  \<open>fits n k (s, e)\<close>: the \<open>k\<close>-digit number \<open>s\<close> with exponent \<open>e\<close> denotes a value that
  rounds to \<open>n\<close>. The candidates for \<open>k\<close> digits are the two next to \<open>n\<close> at each of
  the two possible exponents; the search goes from one digit up to 17, which always
  suffice for a double.
\<close>

definition fits :: "nat \<Rightarrow> nat \<Rightarrow> nat \<times> nat \<Rightarrow> bool" where
  "fits n k p \<longleftrightarrow>
     (case p of (s, e) \<Rightarrow>
        10 ^ (k - 1) \<le> s \<and> s < 10 ^ k \<and> to_double (of_nat (s * 10 ^ (e - k))) = of_nat n)"

definition candidates :: "nat \<Rightarrow> nat \<Rightarrow> (nat \<times> nat) list" where
  "candidates n k =
     (let d = length (digits n) in
      filter (fits n k)
        [(n div 10 ^ (d - k), d), (n div 10 ^ (d - k) + 1, d),
         (n div 10 ^ (d + 1 - k), d + 1), (n div 10 ^ (d + 1 - k) + 1, d + 1)])"

definition closer :: "nat \<Rightarrow> nat \<Rightarrow> nat \<times> nat \<Rightarrow> nat \<times> nat \<Rightarrow> nat \<times> nat" where
  "closer n k p q =
     (let dp = \<bar>int (fst p * 10 ^ (snd p - k)) - int n\<bar>;
          dq = \<bar>int (fst q * 10 ^ (snd q - k)) - int n\<bar>
      in if dp < dq \<or> (dp = dq \<and> even (fst p)) then p else q)"

fun shortest_from :: "nat \<Rightarrow> nat \<Rightarrow> nat \<Rightarrow> (nat \<times> nat \<times> nat) option" where
  "shortest_from n k 0 = None"
| "shortest_from n k (Suc m) =
     (case candidates n k of
        [] \<Rightarrow> shortest_from n (Suc k) m
      | p # ps \<Rightarrow> (case foldl (closer n k) p ps of (s, e) \<Rightarrow> Some (s, k, e)))"

definition Number_toString_nat :: "nat \<Rightarrow> string" where
  "Number_toString_nat n =
     (if n < 2 ^ 53 then digits n
      else (case shortest_from n 1 17 of
          None \<Rightarrow> digits n
        | Some (s, k, e) \<Rightarrow>
            if e \<le> 21 then digits s @ replicate (e - k) (CHR ''0'')
            else if k = 1 then digits s @ ''e+'' @ digits (e - 1)
            else take 1 (digits s) @ ''.'' @ drop 1 (digits s) @ ''e+'' @ digits (e - 1)))"

definition Number_toString :: "int \<Rightarrow> string" where
  "Number_toString n =
     (if n < 0 then ''-'' @ Number_toString_nat (nat (- n)) else Number_toString_nat (nat n))"

text \<open>
  \<^verbatim>\<open>x.toFixed(1)\<close>: from \<open>10\<^sup>2\<^sup>1\<close> on it is \<^verbatim>\<open>Number::toString\<close>; below, the digits
  of the integer \<open>n\<close> nearest to \<open>10 x\<close> (the larger of two), with a point before the last.
\<close>

definition toFixed1 :: "number \<Rightarrow> string" where
  "toFixed1 x =
     (let sgn = (if x < 0 then ''-'' else []); y = \<bar>x\<bar> in
      if 10 ^ 21 \<le> y then sgn @ Number_toString_nat (nat \<lfloor>y\<rfloor>)
      else (let n = nat \<lfloor>y * 10 + 1 / 2\<rfloor> in
            sgn @ digits (n div 10) @ ''.'' @ digits (n mod 10)))"

subsection \<open>formatDistance\<close>

text \<open>
  The service and the selection list each define \<^verbatim>\<open>formatDistance\<close>, with the same
  body: \<^verbatim>\<open>Math.round(meters)\<close> and \<^verbatim>\<open>m\<close> below 1000, otherwise
  \<^verbatim>\<open>(meters / 1000).toFixed(1)\<close> and \<^verbatim>\<open>km\<close>.
\<close>

definition formatDistance :: "number \<Rightarrow> string" where
  "formatDistance meters =
     (if meters < 1000 then Number_toString (Math_round meters) @ ''m''
      else toFixed1 (divide_double meters 1000) @ ''km'')"

subsection \<open>Double arithmetic\<close>

text \<open>
  \<^verbatim>\<open>calculateDistance\<close> is modelled in the arithmetic of IEEE 754 doubles. A number is
  \<^verbatim>\<open>NaN\<close>, one of the two infinities, or finite; a finite number carries the real it
  denotes. The sign of a zero is not modelled: in \<^verbatim>\<open>calculateDistance\<close> no result depends
  on it (it divides by 180 and 2 only, and the arguments of \<^verbatim>\<open>Math.atan2\<close> are square
  roots of a sum whose first summand is a square, and of 1 minus that sum, none of which
  is \<^verbatim>\<open>-0\<close>).
\<close>

datatype js_number = NaN | Infinity | MinusInfinity | Num real

definition signed_infinity :: "bool \<Rightarrow> js_number" where
  "signed_infinity negative = (if negative then MinusInfinity else Infinity)"

text \<open>
  \<open>binade y\<close> is \<open>\<lfloor>log\<^sub>2 y\<rfloor>\<close> for \<open>y > 0\<close>, and \<open>pow2 k\<close> is \<open>2\<^sup>k\<close>.
\<close>

definition binade :: "real \<Rightarrow> int" where
  "binade y =
     (if 1 \<le> y then int (ilog2 (nat \<lfloor>y\<rfloor>))
      else - int (Suc (ilog2 (nat \<lceil>1 / y\<rceil> - 1))))"

definition pow2 :: "int \<Rightarrow> real" where
  "pow2 k = (if 0 \<le> k then 2 ^ nat k else 1 / 2 ^ nat (- k))"

text \<open>
  The double nearest to a real (round to nearest, ties to even): 53 significant bits,
  the spacing \<open>2\<^bsup>-1074\<^esup>\<close> of the subnormal numbers below \<open>2\<^bsup>-1022\<^esup>\<close>, and an infinity
  when the rounded value reaches \<open>2\<^bsup>1024\<^esup>\<close>.
\<close>

definition round_double :: "real \<Rightarrow> js_number" where
  "round_double x =
     (if x = 0 then Num 0
      else
        (let ulp = pow2 (max (binade \<bar>x\<bar>) (- 1022) - 52);
             y = of_int (round_half_even (\<bar>x\<bar> / ulp)) * ulp
         in if 2 ^ 1024 \<le> y then signed_infinity (x < 0)
            else Num (if x < 0 then - y else y)))"

text \<open>
  The operators \<^verbatim>\<open>*\<close>, \<^verbatim>\<open>/\<close>, \<^verbatim>\<open>+\<close> and \<^verbatim>\<open>-\<close>: the exact result, rounded; \<^verbatim>\<open>NaN\<close> from a
  \<^verbatim>\<open>NaN\<close> operand, from \<open>\<infinity> \<times> 0\<close>, \<open>\<infinity> / \<infinity>\<close>, \<open>0 / 0\<close> and \<open>\<infinity> - \<infinity>\<close>. A zero divisor is
  taken as \<^verbatim>\<open>+0\<close>.
\<close>

fun js_times :: "js_number \<Rightarrow> js_number \<Rightarrow> js_number" where
  "js_times NaN y = NaN"
| "js_times x NaN = NaN"
| "js_times (Num a) (Num b) = round_double (a * b)"
| "js_times (Num a) y = (if a = 0 then NaN else signed_infinity ((a < 0) \<noteq> (y = MinusInfinity)))"
| "js_times x (Num b) = (if b = 0 then NaN else signed_infinity ((x = MinusInfinity) \<noteq> (b < 0)))"
| "js_times x y = signed_infinity ((x = MinusInfinity) \<noteq> (y = MinusInfinity))"

fun js_divide :: "js_number \<Rightarrow> js_number \<Rightarrow> js_number" where
  "js_divide NaN y = NaN"
| "js_divide x NaN = NaN"
| "js_divide (Num a) (Num b) =
     (if b = 0 then (if a = 0 then NaN else signed_infinity (a < 0)) else round_double (a / b))"
| "js_divide (Num a) y = Num 0"
| "js_divide x (Num b) = signed_infinity ((x = MinusInfinity) \<noteq> (b < 0))"
| "js_divide x y = NaN"

fun js_plus :: "js_number \<Rightarrow> js_number \<Rightarrow> js_number" where
  "js_plus NaN y = NaN"
| "js_plus x NaN = NaN"
| "js_plus (Num a) (Num b) = round_double (a + b)"
| "js_plus (Num a) y = y"
| "js_plus x (Num b) = x"
| "js_plus x y = (if x = y then x else NaN)"

fun js_negate :: "js_number \<Rightarrow> js_number" where
  "js_negate NaN = NaN"
| "js_negate Infinity = MinusInfinity"
| "js_negate MinusInfinity = Infinity"
| "js_negate (Num a) = Num (- a)"

definition js_minus :: "js_number \<Rightarrow> js_number \<Rightarrow> js_number" where
  "js_minus x y = js_plus x (js_negate y)"

subsection \<open>The Math object\<close>

text \<open>
  ECMAScript fixes \<^verbatim>\<open>Math.sin\<close>, \<^verbatim>\<open>Math.cos\<close>, \<^verbatim>\<open>Math.sqrt\<close> and \<^verbatim>\<open>Math.atan2\<close> at a
  few arguments only and leaves the other values to the engine
  (an implementation-approximated value). The engine's choice is a parameter of the model:
  the four functions of an \<open>engine\<close>, each returning a finite number.
\<close>

record engine =
  sin_impl :: "real \<Rightarrow> real"
  cos_impl :: "real \<Rightarrow> real"
  sqrt_impl :: "real \<Rightarrow> real"
  atan2_impl :: "js_number \<Rightarrow> js_number \<Rightarrow> real"

text \<open>\<^verbatim>\<open>Math.PI\<close>, the double nearest to \<open>\<pi>\<close>: \<^verbatim>\<open>0x1.921fb54442d18p+1\<close>.\<close>

definition Math_PI :: js_number where
  "Math_PI = Num (884279719003555 / 2 ^ 48)"

text \<open>
  The values that ECMAScript fixes: \<^verbatim>\<open>NaN\<close> for a \<^verbatim>\<open>NaN\<close> argument, for the sine and the
  cosine of an infinity and for the square root of a negative number or of \<open>-\<infinity>\<close>;
  \<open>sin 0 = 0\<close>, \<open>cos 0 = 1\<close>, \<open>sqrt 0 = 0\<close>, \<open>sqrt \<infinity> = \<infinity>\<close>; \<open>atan2(0, x) = 0\<close> for
  \<open>x \<ge> 0\<close> and \<open>atan2(y, \<infinity>) = 0\<close> for finite \<open>y\<close>.
\<close>

fun Math_sin :: "engine \<Rightarrow> js_number \<Rightarrow> js_number" where
  "Math_sin E (Num x) = (if x = 0 then Num 0 else Num (sin_impl E x))"
| "Math_sin E x = NaN"

fun Math_cos :: "engine \<Rightarrow> js_number \<Rightarrow> js_number" where
  "Math_cos E (Num x) = (if x = 0 then Num 1 else Num (cos_impl E x))"
| "Math_cos E x = NaN"

fun Math_sqrt :: "engine \<Rightarrow> js_number \<Rightarrow> js_number" where
  "Math_sqrt E (Num x) = (if x < 0 then NaN else if x = 0 then Num 0 else Num (sqrt_impl E x))"
| "Math_sqrt E Infinity = Infinity"
| "Math_sqrt E x = NaN"

fun Math_atan2 :: "engine \<Rightarrow> js_number \<Rightarrow> js_number \<Rightarrow> js_number" where
  "Math_atan2 E NaN x = NaN"
| "Math_atan2 E y NaN = NaN"
| "Math_atan2 E (Num y) (Num x) =
     (if y = 0 \<and> 0 \<le> x then Num 0 else Num (atan2_impl E (Num y) (Num x)))"
| "Math_atan2 E (Num y) Infinity = Num 0"
| "Math_atan2 E y x = Num (atan2_impl E y x)"

subsection \<open>calculateDistance\<close>

text \<open>
  \<^verbatim>\<open>calculateDistance(lat1, lon1, lat2, lon2)\<close> of the water-body service, operation by
  operation, in the order in which JavaScript evaluates the expressions (\<^verbatim>\<open>*\<close> and \<^verbatim>\<open>/\<close>
  associate to the left). \<^verbatim>\<open>R\<close> is \<^verbatim>\<open>6371e3\<close>.
\<close>

definition calculateDistance ::
  "engine \<Rightarrow> js_number \<Rightarrow> js_number \<Rightarrow> js_number \<Rightarrow> js_number \<Rightarrow> js_number" where
  "calculateDistance E lat1 lon1 lat2 lon2 =
     (let R = Num 6371000;
          phi1 = js_divide (js_times lat1 Math_PI) (Num 180);
          phi2 = js_divide (js_times lat2 Math_PI) (Num 180);
          dphi = js_divide (js_times (js_minus lat2 lat1) Math_PI) (Num 180);
          dlambda = js_divide (js_times (js_minus lon2 lon1) Math_PI) (Num 180);
          a = js_plus
                (js_times (Math_sin E (js_divide dphi (Num 2))) (Math_sin E (js_divide dphi (Num 2))))
                (js_times
                  (js_times
                    (js_times (Math_cos E phi1) (Math_cos E phi2))
                    (Math_sin E (js_divide dlambda (Num 2))))
                  (Math_sin E (js_divide dlambda (Num 2))));
          c = js_times (Num 2) (Math_atan2 E (Math_sqrt E a) (Math_sqrt E (js_minus (Num 1) a)))
      in js_times R c)"

text \<open>
  An engine whose four functions are correctly rounded: each returns the double nearest
  to the value of the mathematical function. \<open>angle y x\<close> is the angle of the point
  \<open>(x, y)\<close>, with its limits at the infinities.
\<close>

fun angle :: "js_number \<Rightarrow> js_number \<Rightarrow> real" where
  "angle (Num y) (Num x) =
     (if 0 < x then arctan (y / x)
      else if x < 0 then (if 0 \<le> y then arctan (y / x) + pi else arctan (y / x) - pi)
      else if 0 < y then pi / 2
      else if y < 0 then - pi / 2
      else 0)"
| "angle (Num y) Infinity = 0"
| "angle (Num y) MinusInfinity = (if 0 \<le> y then pi else - pi)"
| "angle Infinity Infinity = pi / 4"
| "angle Infinity MinusInfinity = 3 * pi / 4"
| "angle Infinity (Num x) = pi / 2"
| "angle MinusInfinity Infinity = - pi / 4"
| "angle MinusInfinity MinusInfinity = - 3 * pi / 4"
| "angle MinusInfinity (Num x) = - pi / 2"
| "angle y x = 0"

fun finite_part :: "js_number \<Rightarrow> real" where
  "finite_part (Num v) = v"
| "finite_part x = 0"

definition correctly_rounded :: engine where
  "correctly_rounded =
     \<lparr>sin_impl = (\<lambda>x. finite_part (round_double (sin x))),
      cos_impl = (\<lambda>x. finite_part (round_double (cos x))),
      sqrt_impl = (\<lambda>x. finite_part (round_double (sqrt x))),
      atan2_impl = (\<lambda>y x. finite_part (round_double (angle y x)))\<rparr>"

text \<open>
  The great-circle distance on a sphere of radius 6 371 000 m: the radius times the
  angle between the unit vectors of the two points (latitude and longitude in degrees).
\<close>

definition unit_vector :: "real \<Rightarrow> real \<Rightarrow> real \<times> real \<times> real" where
  "unit_vector lat lon =
     (cos (lat * pi / 180) * cos (lon * pi / 180),
      cos (lat * pi / 180) * sin (lon * pi / 180),
      sin (lat * pi / 180))"

definition dot :: "real \<times> real \<times> real \<Rightarrow> real \<times> real \<times> real \<Rightarrow> real" where
  "dot u v = (case u of (a, b, c) \<Rightarrow> case v of (x, y, z) \<Rightarrow> a * x + b * y + c * z)"

definition greatCircleDistance :: "real \<Rightarrow> real \<Rightarrow> real \<Rightarrow> real \<Rightarrow> real" where
  "greatCircleDistance lat1 lon1 lat2 lon2 =
     6371000 * arccos (dot (unit_vector lat1 lon1) (unit_vector lat2 lon2))"

subsection \<open>Example inputs\<close>

text \<open>
  The example of the specification (two sections of one lake and a closer OSM lake), and a
  list with a repeated id, a repeated section name, a legacy record without
  \<^verbatim>\<open>sectionId\<close>, a record without \<^verbatim>\<open>sharedWaterBodyId\<close> and a duplicated OSM candidate.
\<close>

definition lake_upper :: WaterBodySearchResult where
  "lake_upper =
     \<lparr>source = ''shared_database'', sharedWaterBodyId = Some ''W1'',
      sectionId = Some ''S1'', sectionIndex = Some 0, sectionName = Some ''Upper'',
      name = ''Lake A'', type = Some ''lake'', distance = Some 500, osmId = None\<rparr>"

definition lake_lower :: WaterBodySearchResult where
  "lake_lower =
     \<lparr>source = ''shared_database'', sharedWaterBodyId = Some ''W1'',
      sectionId = Some ''S2'', sectionIndex = Some 1, sectionName = Some ''Lower'',
      name = ''Lake A'', type = Some ''lake'', distance = Some 500, osmId = None\<rparr>"

definition lake_renamed :: WaterBodySearchResult where
  "lake_renamed =
     \<lparr>source = ''shared_database'', sharedWaterBodyId = Some ''W1'',
      sectionId = Some ''S3'', sectionIndex = Some 2, sectionName = Some ''Upper'',
      name = ''Lake Alpha'', type = Some ''reservoir'', distance = Some 900, osmId = None\<rparr>"

definition legacy :: WaterBodySearchResult where
  "legacy =
     \<lparr>source = ''shared_database'', sharedWaterBodyId = Some ''W2'',
      sectionId = None, sectionIndex = None, sectionName = Some ''Legacy Section'',
      name = ''Legacy Lake'', type = Some ''lake'', distance = Some 300, osmId = None\<rparr>"

definition no_id :: WaterBodySearchResult where
  "no_id =
     \<lparr>source = ''shared_database'', sharedWaterBodyId = None,
      sectionId = None, sectionIndex = None, sectionName = Some ''Lost'',
      name = ''Invalid Lake'', type = Some ''lake'', distance = Some 10, osmId = None\<rparr>"

definition osm_lake :: WaterBodySearchResult where
  "osm_lake =
     \<lparr>source = ''osm'', sharedWaterBodyId = None, sectionId = None,
      sectionIndex = None, sectionName = None, name = ''OSM Lake'', type = None,
      distance = Some 100, osmId = Some ''123''\<rparr>"

definition spec_example :: "WaterBodySearchResult list" where
  "spec_example = [lake_upper, lake_lower, osm_lake]"

definition mixed_example :: "WaterBodySearchResult list" where
  "mixed_example = [lake_upper, legacy, lake_renamed, no_id, osm_lake, osm_lake]"


section \<open>The grouper: proofs\<close>

lemmas example_defs =
  spec_example_def mixed_example_def lake_upper_def lake_lower_def lake_renamed_def
  legacy_def no_id_def osm_lake_def

lemmas grouper_defs =
  getGroupedCandidates_def loop_body_def map_has_def map_get_def map_set_def
  map_values_def num_or_def str_or_def


subsection \<open>Lists, first occurrences and association lists\<close>

lemma remdups_snoc:
  "remdups (ys @ [x]) = filter (\<lambda>y. y \<noteq> x) (remdups ys) @ [x]"
  by (induction ys) auto

lemma firstSeen_remdups: "firstSeen xs = rev (remdups (rev xs))"
proof (induction xs rule: firstSeen.induct)
  case 1
  show ?case by simp
next
  case (2 x xs)
  have "rev (remdups (rev (x # xs))) = x # rev (filter (\<lambda>y. y \<noteq> x) (remdups (rev xs)))"
    by (simp add: remdups_snoc)
  also have "filter (\<lambda>y. y \<noteq> x) (remdups (rev xs)) = remdups (rev (filter (\<lambda>y. y \<noteq> x) xs))"
    by (simp add: remdups_filter rev_filter)
  finally show ?case using 2 by simp
qed

lemma firstSeen_snoc:
  "firstSeen (xs @ [x]) = (if x \<in> set xs then firstSeen xs else firstSeen xs @ [x])"
  by (simp add: firstSeen_remdups)

lemma set_firstSeen: "set (firstSeen xs) = set xs"
  by (simp add: firstSeen_remdups)

lemma distinct_firstSeen: "distinct (firstSeen xs)"
  by (simp add: firstSeen_remdups)

lemma length_firstSeen: "length (firstSeen xs) = card (set xs)"
  by (metis distinct_card distinct_firstSeen set_firstSeen)

lemma find_snoc:
  "find P (xs @ [x]) =
     (case find P xs of Some y \<Rightarrow> Some y | None \<Rightarrow> if P x then Some x else None)"
  by (induction xs) auto

lemma update_absent:
  "k \<notin> fst ` set m \<Longrightarrow> AList.update k v m = m @ [(k, v)]"
  by (induction m) auto

lemma update_last:
  "k \<notin> fst ` set m \<Longrightarrow> AList.update k v' (m @ [(k, v)]) = m @ [(k, v')]"
  by (induction m) auto

lemma set_update_distinct:
  "distinct (map fst m) \<Longrightarrow> (k, v) \<in> set m \<Longrightarrow>
   set (AList.update k v' m) = insert (k, v') (set m - {(k, v)})"
  by (induction m) (auto simp: update_absent image_iff)

subsection \<open>The expected result, one candidate later\<close>

lemma communityIds_snoc:
  "communityIds (cs @ [c]) =
     communityIds cs @ (case groupingKey c of None \<Rightarrow> [] | Some k \<Rightarrow> [k])"
  by (simp add: communityIds_def List.map_filter_def split: option.splits)

lemma set_communityIds:
  "set (communityIds cs) = {k. \<exists>c\<in>set cs. groupingKey c = Some k}"
  by (force simp: communityIds_def List.map_filter_def)

lemma sectionsFor_snoc:
  "sectionsFor (cs @ [c]) k =
     sectionsFor cs k @
       (if groupingKey c = Some k
        then (case sectionEntry c of None \<Rightarrow> [] | Some s \<Rightarrow> [s]) else [])"
  by (simp add: sectionsFor_def List.map_filter_def split: option.splits)

lemma groupFor_None: "groupFor cs k = None \<longleftrightarrow> k \<notin> set (communityIds cs)"
proof -
  have "groupFor cs k = None \<longleftrightarrow> find (\<lambda>c. groupingKey c = Some k) cs = None"
    by (simp add: groupFor_def split: option.splits)
  also have "\<dots> \<longleftrightarrow> k \<notin> set (communityIds cs)"
    by (auto simp: find_None_iff set_communityIds)
  finally show ?thesis .
qed

lemma sectionsFor_absent:
  assumes "k \<notin> set (communityIds cs)"
  shows "sectionsFor cs k = []"
proof -
  from assms have "filter (\<lambda>c. groupingKey c = Some k) cs = []"
    by (simp add: set_communityIds filter_empty_conv)
  then show ?thesis by (simp add: sectionsFor_def List.map_filter_def)
qed

lemma groupFor_snoc_other:
  "groupingKey c \<noteq> Some k \<Longrightarrow> groupFor (cs @ [c]) k = groupFor cs k"
  by (auto simp: groupFor_def find_snoc sectionsFor_snoc split: option.splits)

lemma groupFor_snoc_same:
  "groupFor cs k = Some g \<Longrightarrow> groupingKey c = Some k \<Longrightarrow>
   groupFor (cs @ [c]) k =
     Some (g\<lparr>sections := sections g @ (case sectionEntry c of None \<Rightarrow> [] | Some s \<Rightarrow> [s])\<rparr>)"
  by (auto simp: groupFor_def find_snoc sectionsFor_snoc split: option.splits)

lemma groupFor_snoc_new:
  "k \<notin> set (communityIds cs) \<Longrightarrow> groupingKey c = Some k \<Longrightarrow>
   groupFor (cs @ [c]) k =
     Some \<lparr>waterBodyId = k, name_g = name c, type_g = type c, distance_g = distance c,
           sections = (case sectionEntry c of None \<Rightarrow> [] | Some s \<Rightarrow> [s])\<rparr>"
  using groupFor_None[of cs k]
  by (auto simp: groupFor_def find_snoc sectionsFor_snoc sectionsFor_absent split: option.splits)

lemma externalOf_snoc:
  "externalOf b (cs @ [c]) = externalOf b cs @ (if b \<and> source c = ''osm'' then [c] else [])"
  by (simp add: externalOf_def)


subsection \<open>The loop computes the expected result\<close>

lemma loop_snoc:
  "loop b st (cs @ [c]) =
     (case loop b st cs of Inl e \<Rightarrow> Inl e | Inr st' \<Rightarrow> loop_body b st' c)"
  by (induction cs arbitrary: st) (auto split: sum.splits)

lemma loop_body_skip:
  assumes "groupingKey c = None"
  shows "loop_body b (gs, osm) c =
           Inr (gs, osm @ (if b \<and> source c = ''osm'' then [c] else []))"
  using assms
  by (auto simp: loop_body_def groupingKey_def Let_def split: option.splits if_splits)

lemma groupingKey_Some:
  assumes "groupingKey c = Some k"
  shows "source c \<noteq> ''osm''" and "sharedWaterBodyId c = Some k" and "k \<noteq> []"
  using assms by (auto simp: groupingKey_def split: option.splits if_splits)

lemma loop_body_new:
  assumes "groupingKey c = Some k" and "k \<notin> fst ` set gs"
  shows "loop_body b (gs, osm) c =
     Inr (gs @ [(k, \<lparr>waterBodyId = k, name_g = name c, type_g = type c,
                    distance_g = distance c,
                    sections = (case sectionEntry c of None \<Rightarrow> [] | Some s \<Rightarrow> [s])\<rparr>)], osm)"
proof -
  from assms(2) have none: "map_of gs k = None"
    by (simp add: map_of_eq_None_iff)
  then have nh: "\<not> map_has gs k"
    by (simp add: map_has_def)
  show ?thesis
    using groupingKey_Some[OF assms(1)] nh assms(2) none
    by (simp add: loop_body_def Let_def map_set_def map_get_def update_absent update_last
        map_add_def sectionEntry_def split: option.splits)
qed

lemma loop_body_old:
  assumes "groupingKey c = Some k" and "distinct (map fst gs)" and "(k, g) \<in> set gs"
  shows "loop_body b (gs, osm) c =
     Inr (case sectionEntry c of None \<Rightarrow> gs
          | Some s \<Rightarrow> AList.update k (g\<lparr>sections := sections g @ [s]\<rparr>) gs, osm)"
proof -
  from assms(2,3) have get: "map_of gs k = Some g" by simp
  then have h: "map_has gs k" by (simp add: map_has_def)
  show ?thesis
    using groupingKey_Some[OF assms(1)] h get
    by (simp add: loop_body_def Let_def map_set_def map_get_def sectionEntry_def
        split: option.splits)
qed

lemma loop_body_inv:
  assumes inv: "grouper_inv b cs st"
  shows "\<exists>st'. loop_body b st c = Inr st' \<and> grouper_inv b (cs @ [c]) st'"
proof -
  obtain gs osm where st: "st = (gs, osm)" by (cases st)
  from inv st have osm: "osm = externalOf b cs"
    and keys: "map fst gs = firstSeen (communityIds cs)"
    and descr: "\<And>k g. (k, g) \<in> set gs \<Longrightarrow> groupFor cs k = Some g"
    by (auto simp: grouper_inv_def)
  from keys have dist: "distinct (map fst gs)"
    by (simp add: distinct_firstSeen)
  from keys have keyset: "fst ` set gs = set (communityIds cs)"
    by (metis list.set_map set_firstSeen)
  show ?thesis
  proof (cases "groupingKey c")
    case None
    have "loop_body b st c = Inr (gs, osm @ (if b \<and> source c = ''osm'' then [c] else []))"
      unfolding st by (rule loop_body_skip[OF None])
    moreover have "grouper_inv b (cs @ [c]) (gs, osm @ (if b \<and> source c = ''osm'' then [c] else []))"
      using None osm keys descr
      by (auto simp: grouper_inv_def externalOf_snoc communityIds_snoc groupFor_snoc_other)
    ultimately show ?thesis by blast
  next
    case (Some k)
    note src = groupingKey_Some(1)[OF Some]
    show ?thesis
    proof (cases "k \<in> fst ` set gs")
      case False
      let ?g = "\<lparr>waterBodyId = k, name_g = name c, type_g = type c,
                 distance_g = distance c,
                 sections = (case sectionEntry c of None \<Rightarrow> [] | Some s \<Rightarrow> [s])\<rparr>"
      have step: "loop_body b st c = Inr (gs @ [(k, ?g)], osm)"
        unfolding st by (rule loop_body_new[OF Some False])
      from False keyset have notin: "k \<notin> set (communityIds cs)" by simp
      have "grouper_inv b (cs @ [c]) (gs @ [(k, ?g)], osm)"
        unfolding grouper_inv_def
      proof (intro conjI ballI)
        show "snd (gs @ [(k, ?g)], osm) = externalOf b (cs @ [c])"
          using osm src by (simp add: externalOf_snoc)
        show "map fst (fst (gs @ [(k, ?g)], osm)) = firstSeen (communityIds (cs @ [c]))"
          using keys notin Some by (simp add: communityIds_snoc firstSeen_snoc)
      next
        fix p assume "p \<in> set (fst (gs @ [(k, ?g)], osm))"
        then consider "p \<in> set gs" | "p = (k, ?g)" by auto
        then show "case p of (k', g) \<Rightarrow> groupFor (cs @ [c]) k' = Some g"
        proof cases
          case 1
          obtain k' g where p: "p = (k', g)" by (cases p)
          with 1 False have "k' \<noteq> k" by force
          then have "groupingKey c \<noteq> Some k'" using Some by simp
          with descr[of k' g] 1 p show ?thesis
            by (simp add: groupFor_snoc_other)
        next
          case 2
          then show ?thesis using groupFor_snoc_new[OF notin Some] by simp
        qed
      qed
      with step show ?thesis by blast
    next
      case True
      then obtain g where mem: "(k, g) \<in> set gs" by force
      let ?gs' = "(case sectionEntry c of None \<Rightarrow> gs
          | Some s \<Rightarrow> AList.update k (g\<lparr>sections := sections g @ [s]\<rparr>) gs)"
      let ?g' = "g\<lparr>sections := sections g @ (case sectionEntry c of None \<Rightarrow> [] | Some s \<Rightarrow> [s])\<rparr>"
      have step: "loop_body b st c = Inr (?gs', osm)"
        unfolding st by (rule loop_body_old[OF Some dist mem])
      from True keyset have isin: "k \<in> set (communityIds cs)" by simp
      have keys': "map fst ?gs' = map fst gs"
        using True by (auto simp: update_keys split: option.splits)
      have set': "set ?gs' = insert (k, ?g') (set gs - {(k, g)})"
        using set_update_distinct[OF dist mem] mem
        by (auto split: option.splits)
      have "grouper_inv b (cs @ [c]) (?gs', osm)"
        unfolding grouper_inv_def
      proof (intro conjI ballI)
        show "snd (?gs', osm) = externalOf b (cs @ [c])"
          using osm src by (simp add: externalOf_snoc)
        show "map fst (fst (?gs', osm)) = firstSeen (communityIds (cs @ [c]))"
          using keys keys' isin Some by (simp add: communityIds_snoc firstSeen_snoc)
      next
        fix p assume "p \<in> set (fst (?gs', osm))"
        with set' consider "p = (k, ?g')" | "p \<in> set gs" "p \<noteq> (k, g)" by auto
        then show "case p of (k', g) \<Rightarrow> groupFor (cs @ [c]) k' = Some g"
        proof cases
          case 1
          then show ?thesis using groupFor_snoc_same[OF descr[OF mem] Some] by simp
        next
          case 2
          obtain k' g2 where p: "p = (k', g2)" by (cases p)
          have "k' \<noteq> k"
          proof
            assume "k' = k"
            with 2 p mem dist have "g2 = g"
              by (metis eq_key_imp_eq_value)
            with 2 p \<open>k' = k\<close> show False by simp
          qed
          then have "groupingKey c \<noteq> Some k'" using Some by simp
          with descr[of k' g2] 2 p show ?thesis
            by (simp add: groupFor_snoc_other)
        qed
      qed
      with step show ?thesis by blast
    qed
  qed
qed

lemma loop_inv:
  "\<exists>st. loop b ([], []) cs = Inr st \<and> grouper_inv b cs st"
proof (induction cs rule: rev_induct)
  case Nil
  show ?case
    by (simp add: grouper_inv_def externalOf_def communityIds_def List.map_filter_def)
next
  case (snoc c cs)
  then obtain st where st: "loop b ([], []) cs = Inr st" and inv: "grouper_inv b cs st"
    by blast
  from loop_body_inv[OF inv, of c] obtain st' where
    "loop_body b st c = Inr st'" "grouper_inv b (cs @ [c]) st'" by blast
  with st show ?case by (simp add: loop_snoc)
qed

lemma inv_groups:
  assumes "map fst gs = ks" and "\<forall>(k, g) \<in> set gs. f k = Some g"
  shows "map snd gs = List.map_filter f ks"
  using assms
  by (induction gs arbitrary: ks) (auto simp: List.map_filter_def)

lemma getGroupedCandidates_eq:
  "getGroupedCandidates cs b =
     Inr \<lparr>groups = expectedGroups cs, osmCandidates = externalOf b cs\<rparr>"
proof -
  obtain gs osm where run: "loop b ([], []) cs = Inr (gs, osm)"
    and inv: "grouper_inv b cs (gs, osm)"
    using loop_inv[of b cs] by (metis surj_pair)
  from inv have "map snd gs = expectedGroups cs"
    unfolding expectedGroups_def grouper_inv_def
    by (intro inv_groups) auto
  moreover from inv have "osm = externalOf b cs"
    by (simp add: grouper_inv_def)
  ultimately show ?thesis
    using run by (simp add: getGroupedCandidates_def map_values_def)
qed


lemma groupFor_waterBodyId: "groupFor cs k = Some g \<Longrightarrow> waterBodyId g = k"
  by (auto simp: groupFor_def split: option.splits)

lemma groupFor_sections: "groupFor cs k = Some g \<Longrightarrow> sections g = sectionsFor cs k"
  by (auto simp: groupFor_def split: option.splits)

lemma groupFor_header:
  "groupFor cs k = Some g \<Longrightarrow>
   \<exists>c0. find (\<lambda>c. groupingKey c = Some k) cs = Some c0 \<and>
        name_g g = name c0 \<and> type_g g = type c0 \<and> distance_g g = distance c0"
  by (auto simp: groupFor_def split: option.splits)

lemma set_expectedGroups:
  "set (expectedGroups cs) = {g. \<exists>k. groupFor cs k = Some g}"
proof -
  have "\<And>k g. groupFor cs k = Some g \<Longrightarrow> k \<in> set (communityIds cs)"
    using groupFor_None[of cs] by force
  then show ?thesis
    by (force simp: expectedGroups_def List.map_filter_def set_firstSeen)
qed

lemma in_expectedGroups:
  "g \<in> set (expectedGroups cs) \<longleftrightarrow> groupFor cs (waterBodyId g) = Some g"
  using groupFor_waterBodyId by (auto simp: set_expectedGroups)

lemma map_filter_keys:
  assumes "\<And>k. k \<in> set ks \<Longrightarrow> \<exists>g. f k = Some g \<and> h g = k"
  shows "map h (List.map_filter f ks) = ks"
  using assms
proof (induction ks)
  case Nil
  show ?case by (simp add: List.map_filter_def)
next
  case (Cons k ks)
  from Cons.prems[of k] obtain g where "f k = Some g" "h g = k" by auto
  moreover have "map h (List.map_filter f ks) = ks"
    using Cons by simp
  ultimately show ?case by (simp add: List.map_filter_def)
qed

lemma expectedGroups_ids:
  "map waterBodyId (expectedGroups cs) = firstSeen (communityIds cs)"
  unfolding expectedGroups_def
proof (rule map_filter_keys)
  fix k assume "k \<in> set (firstSeen (communityIds cs))"
  then have "groupFor cs k \<noteq> None"
    by (simp add: groupFor_None set_firstSeen)
  then show "\<exists>g. groupFor cs k = Some g \<and> waterBodyId g = k"
    using groupFor_waterBodyId by auto
qed

lemma sectionEntry_candidate: "sectionEntry c = Some s \<Longrightarrow> candidate s = c"
  by (auto simp: sectionEntry_def split: option.splits if_splits)

lemma sectionEntry_None:
  "sectionEntry c = None \<longleftrightarrow> sectionName c = None \<or> sectionName c = Some []"
  by (auto simp: sectionEntry_def split: option.splits)

lemma map_candidate_map_filter:
  "map candidate (List.map_filter sectionEntry xs) =
     filter (\<lambda>c. sectionName c \<noteq> None \<and> sectionName c \<noteq> Some []) xs"
proof (induction xs)
  case Nil
  show ?case by (simp add: List.map_filter_def)
next
  case (Cons x xs)
  then show ?case
    using sectionEntry_None[of x] sectionEntry_candidate[of x]
    by (cases "sectionEntry x") (auto simp: List.map_filter_def)
qed

lemma loop_append:
  "loop b st (xs @ ys) =
     (case loop b st xs of Inl e \<Rightarrow> Inl e | Inr st' \<Rightarrow> loop b st' ys)"
  by (induction xs arbitrary: st) (auto split: sum.splits)

lemma loop_body_no_id:
  assumes "source c \<noteq> ''osm''"
    and "sharedWaterBodyId c = None \<or> sharedWaterBodyId c = Some []"
  shows "loop_body b st c = Inr st"
  using assms by (cases st) (auto simp: loop_body_def)

lemma find_append_Some:
  "find P xs = Some x \<Longrightarrow> find P (xs @ ys) = Some x"
  by (induction xs) (auto split: if_splits)

lemma sectionsFor_append:
  "sectionsFor (xs @ ys) k = sectionsFor xs k @ sectionsFor ys k"
  by (simp add: sectionsFor_def List.map_filter_def)

lemma groupFor_append:
  assumes "groupFor cs k = Some g"
  shows "groupFor (cs @ later) k = Some (g\<lparr>sections := sections g @ sectionsFor later k\<rparr>)"
proof -
  from assms obtain c0 where f: "find (\<lambda>c. groupingKey c = Some k) cs = Some c0"
    and g: "g = \<lparr>waterBodyId = k, name_g = name c0, type_g = type c0,
                distance_g = distance c0, sections = sectionsFor cs k\<rparr>"
    by (auto simp: groupFor_def split: option.splits)
  from find_append_Some[OF f, of later] show ?thesis
    by (simp add: groupFor_def g sectionsFor_append)
qed

subsection \<open>The rendered list and the example inputs\<close>

lemma resultCards_empty:
  "groups r = [] \<Longrightarrow> osmCandidates r = [] \<Longrightarrow> resultCards r = [NoResults]"
  by (simp add: resultCards_def)

lemma resultCards_nonempty:
  "groups r \<noteq> [] \<or> osmCandidates r \<noteq> [] \<Longrightarrow>
   resultCards r =
     map WaterBodyGroup (groups r) @
     map (\<lambda>(index, c). OsmCard index c) (enumerate 0 (osmCandidates r))"
  by (auto simp: resultCards_def)

lemma resultCards_nth:
  assumes "i < length (resultCards r)" and "resultCards r ! i = WaterBodyGroup g"
  shows "i < length (groups r)"
proof (cases "groups r = [] \<and> osmCandidates r = []")
  case True
  with assms show ?thesis by (simp add: resultCards_empty)
next
  case False
  then have eq: "resultCards r =
     map WaterBodyGroup (groups r) @
     map (\<lambda>(index, c). OsmCard index c) (enumerate 0 (osmCandidates r))"
    by (intro resultCards_nonempty) auto
  show ?thesis
  proof (rule ccontr)
    assume "\<not> i < length (groups r)"
    with assms(1) eq have "i - length (groups r) < length (osmCandidates r)"
      by simp
    with \<open>\<not> i < length (groups r)\<close> assms(2) eq show False
      by (simp add: nth_append nth_enumerate_eq)
  qed
qed

lemma resultCards_nth_osm:
  assumes "resultCards r ! j = OsmCard n c"
  shows "length (groups r) \<le> j"
proof (rule ccontr)
  assume "\<not> length (groups r) \<le> j"
  then have lt: "j < length (groups r)" by simp
  then have "groups r \<noteq> []" by auto
  then have "resultCards r =
     map WaterBodyGroup (groups r) @
     map (\<lambda>(index, c). OsmCard index c) (enumerate 0 (osmCandidates r))"
    by (intro resultCards_nonempty) simp
  with lt assms show False
    by (simp add: nth_append)
qed

lemma spec_example_groups:
  "getGroupedCandidates spec_example True = Inr r \<Longrightarrow>
   map distance_g (groups r) = [Some 500] \<and> map distance (osmCandidates r) = [Some 100]"
  by (auto simp add: grouper_defs example_defs)

lemma mixed_ids: "communityIds mixed_example = [''W1'', ''W2'', ''W1'']"
  by (simp add: communityIds_def List.map_filter_def groupingKey_def example_defs)

lemma mixed_eval:
  "getGroupedCandidates mixed_example True = Inr r \<Longrightarrow>
   map waterBodyId (groups r) = [''W1'', ''W2'']"
  by (auto simp add: grouper_defs example_defs)

section \<open>The grouper: claims\<close>

text \<open>
  Claim C1. Whatever the distances of the candidates, the selection list shows every
  community group before every OSM candidate: in the rendered cards a group card never
  comes at or after the position of an OSM card. When the grouper returns at least one
  group and at least one OSM candidate, the cards are exactly the groups followed by the
  OSM candidates.
\<close>

theorem groups_before_external:
  "\<exists>r. getGroupedCandidates cs showOSM = Inr r \<and>
       (groups r \<noteq> [] \<and> osmCandidates r \<noteq> [] \<longrightarrow>
          resultCards r =
            map WaterBodyGroup (groups r) @
            map (\<lambda>(index, c). OsmCard index c) (enumerate 0 (osmCandidates r))) \<and>
       (\<forall>i j g n c.
          i < length (resultCards r) \<and> j < length (resultCards r) \<and>
          resultCards r ! i = WaterBodyGroup g \<and> resultCards r ! j = OsmCard n c
          \<longrightarrow> i < j)"
proof -
  let ?r = "\<lparr>groups = expectedGroups cs, osmCandidates = externalOf showOSM cs\<rparr>"
  have "getGroupedCandidates cs showOSM = Inr ?r"
    by (rule getGroupedCandidates_eq)
  moreover have "groups ?r \<noteq> [] \<and> osmCandidates ?r \<noteq> [] \<longrightarrow>
          resultCards ?r =
            map WaterBodyGroup (groups ?r) @
            map (\<lambda>(index, c). OsmCard index c) (enumerate 0 (osmCandidates ?r))"
    by (simp add: resultCards_nonempty)
  moreover have "\<forall>i j g n c.
          i < length (resultCards ?r) \<and> j < length (resultCards ?r) \<and>
          resultCards ?r ! i = WaterBodyGroup g \<and> resultCards ?r ! j = OsmCard n c
          \<longrightarrow> i < j"
    using resultCards_nth[of _ ?r] resultCards_nth_osm[of ?r]
    by (meson less_le_trans)
  ultimately show ?thesis by blast
qed

theorem groups_before_external_witness:
  "\<exists>r. getGroupedCandidates spec_example True = Inr r \<and>
       map distance_g (groups r) = [Some 500] \<and>
       map distance (osmCandidates r) = [Some 100] \<and>
       resultCards r = [WaterBodyGroup (groups r ! 0), OsmCard 0 (osmCandidates r ! 0)] \<and>
       (0::nat) < 1"
proof -
  from groups_before_external[of spec_example True] obtain r where
    r: "getGroupedCandidates spec_example True = Inr r"
    and cards: "groups r \<noteq> [] \<and> osmCandidates r \<noteq> [] \<longrightarrow>
          resultCards r =
            map WaterBodyGroup (groups r) @
            map (\<lambda>(index, c). OsmCard index c) (enumerate 0 (osmCandidates r))"
    and order: "\<forall>i j g n c.
          i < length (resultCards r) \<and> j < length (resultCards r) \<and>
          resultCards r ! i = WaterBodyGroup g \<and> resultCards r ! j = OsmCard n c
          \<longrightarrow> i < j"
    by blast
  from spec_example_groups[OF r] have d: "map distance_g (groups r) = [Some 500]"
    "map distance (osmCandidates r) = [Some 100]" by simp_all
  then obtain g c where gc: "groups r = [g]" "osmCandidates r = [c]"
    by auto
  with cards have eq: "resultCards r = [WaterBodyGroup g, OsmCard 0 c]"
    by simp
  with order have "(0::nat) < 1"
    by simp
  with r d eq gc show ?thesis by simp
qed

text \<open>
  Claim C2. The groups of the result carry exactly the distinct \<^verbatim>\<open>sharedWaterBodyId\<close>
  values of the community candidates (those not from OSM, with a non-empty id, which is
  what the loop's test \<^verbatim>\<open>!waterBodyId\<close> lets through), each once and in the order of
  their first occurrence in the input; so there are as many groups as distinct ids.
\<close>

theorem one_group_per_waterBodyId:
  "\<exists>r. getGroupedCandidates cs showOSM = Inr r \<and>
       map waterBodyId (groups r) = firstSeen (communityIds cs) \<and>
       distinct (map waterBodyId (groups r)) \<and>
       length (groups r) = card (set (communityIds cs))"
proof -
  have "length (expectedGroups cs) = length (map waterBodyId (expectedGroups cs))"
    by simp
  also have "\<dots> = card (set (communityIds cs))"
    by (simp only: expectedGroups_ids length_firstSeen)
  finally show ?thesis
    by (simp add: getGroupedCandidates_eq expectedGroups_ids distinct_firstSeen)
qed

theorem one_group_per_waterBodyId_witness:
  "\<exists>r. getGroupedCandidates mixed_example True = Inr r \<and>
       map waterBodyId (groups r) = [''W1'', ''W2''] \<and>
       distinct (map waterBodyId (groups r)) \<and> length (groups r) = 2"
proof -
  have "firstSeen (communityIds mixed_example) = [''W1'', ''W2'']"
    by (simp add: mixed_ids)
  moreover have "set (communityIds mixed_example) = {''W1'', ''W2''}"
    by (auto simp: mixed_ids)
  then have "card (set (communityIds mixed_example)) = 2"
    by simp
  ultimately show ?thesis
    using one_group_per_waterBodyId[of mixed_example True] by simp
qed

text \<open>
  Claim C4. With \<^verbatim>\<open>showOSM = false\<close> the list of OSM candidates is empty, whatever
  the input; with \<^verbatim>\<open>showOSM = true\<close> it is the subsequence of the input's OSM
  candidates, in input order and with duplicates kept.
\<close>

theorem external_toggle:
  "(\<exists>r. getGroupedCandidates cs False = Inr r \<and> osmCandidates r = []) \<and>
   (\<exists>r. getGroupedCandidates cs True = Inr r \<and>
        osmCandidates r = filter (\<lambda>c. source c = ''osm'') cs)"
  by (simp add: getGroupedCandidates_eq externalOf_def)

theorem external_toggle_witness:
  "(\<exists>r. getGroupedCandidates mixed_example False = Inr r \<and> osmCandidates r = []) \<and>
   (\<exists>r. getGroupedCandidates mixed_example True = Inr r \<and>
        osmCandidates r = [osm_lake, osm_lake])"
proof -
  have "filter (\<lambda>c. source c = ''osm'') mixed_example = [osm_lake, osm_lake]"
    by (simp add: example_defs)
  then show ?thesis
    using external_toggle[of mixed_example] by simp
qed

text \<open>
  Claim C5. The sections of a group are the entries of the candidates filed under the
  group's id that carry a section name (the loop's test \<^verbatim>\<open>if (candidate.sectionName)\<close>:
  present and non-empty), one entry per such candidate, in input order, equal names not
  merged; their source candidates are exactly that subsequence of the input, and a
  candidate without a section name contributes nothing.
\<close>

theorem sections_in_input_order:
  "\<exists>r. getGroupedCandidates cs showOSM = Inr r \<and>
       (\<forall>g \<in> set (groups r).
          sections g =
            List.map_filter sectionEntry
              (filter (\<lambda>c. groupingKey c = Some (waterBodyId g)) cs) \<and>
          map candidate (sections g) =
            filter (\<lambda>c. groupingKey c = Some (waterBodyId g) \<and>
                        sectionName c \<noteq> None \<and> sectionName c \<noteq> Some []) cs \<and>
          (\<forall>s \<in> set (sections g). sectionName (candidate s) = Some (sectionName_s s)))"
proof -
  have "\<forall>g \<in> set (expectedGroups cs).
          sections g =
            List.map_filter sectionEntry
              (filter (\<lambda>c. groupingKey c = Some (waterBodyId g)) cs) \<and>
          map candidate (sections g) =
            filter (\<lambda>c. groupingKey c = Some (waterBodyId g) \<and>
                        sectionName c \<noteq> None \<and> sectionName c \<noteq> Some []) cs \<and>
          (\<forall>s \<in> set (sections g). sectionName (candidate s) = Some (sectionName_s s))"
  proof
    fix g assume "g \<in> set (expectedGroups cs)"
    then have "groupFor cs (waterBodyId g) = Some g"
      by (simp add: in_expectedGroups)
    then have sec: "sections g = sectionsFor cs (waterBodyId g)"
      by (rule groupFor_sections)
    have a: "sections g =
            List.map_filter sectionEntry
              (filter (\<lambda>c. groupingKey c = Some (waterBodyId g)) cs)"
      using sec by (simp add: sectionsFor_def)
    have b: "map candidate (sections g) =
            filter (\<lambda>c. groupingKey c = Some (waterBodyId g) \<and>
                        sectionName c \<noteq> None \<and> sectionName c \<noteq> Some []) cs"
      unfolding a map_candidate_map_filter by simp
    have c: "\<forall>s \<in> set (sections g). sectionName (candidate s) = Some (sectionName_s s)"
      unfolding a
      by (auto simp: List.map_filter_def sectionEntry_def split: option.splits if_splits)
    from a b c show "sections g =
            List.map_filter sectionEntry
              (filter (\<lambda>c. groupingKey c = Some (waterBodyId g)) cs) \<and>
          map candidate (sections g) =
            filter (\<lambda>c. groupingKey c = Some (waterBodyId g) \<and>
                        sectionName c \<noteq> None \<and> sectionName c \<noteq> Some []) cs \<and>
          (\<forall>s \<in> set (sections g). sectionName (candidate s) = Some (sectionName_s s))"
      by blast
  qed
  then show ?thesis
    by (intro exI[of _ "\<lparr>groups = expectedGroups cs, osmCandidates = externalOf showOSM cs\<rparr>"]
        conjI getGroupedCandidates_eq)
      (simp only: GroupedCandidatesResult.select_convs)
qed

theorem sections_in_input_order_witness:
  "\<exists>r. getGroupedCandidates mixed_example True = Inr r \<and>
       map (\<lambda>g. map sectionName_s (sections g)) (groups r) =
         [[''Upper'', ''Upper''], [''Legacy Section'']] \<and>
       map (\<lambda>g. map candidate (sections g)) (groups r) =
         [[lake_upper, lake_renamed], [legacy]]"
proof -
  from sections_in_input_order[of mixed_example True] obtain r where
    r: "getGroupedCandidates mixed_example True = Inr r"
    and sec: "\<And>g. g \<in> set (groups r) \<Longrightarrow>
          sections g =
            List.map_filter sectionEntry
              (filter (\<lambda>c. groupingKey c = Some (waterBodyId g)) mixed_example)"
    by blast
  from mixed_eval[OF r] obtain g1 g2 where
    gs: "groups r = [g1, g2]" "waterBodyId g1 = ''W1''" "waterBodyId g2 = ''W2''"
    by auto
  from sec[of g1] gs have "sections g1 = List.map_filter sectionEntry [lake_upper, lake_renamed]"
    by (simp add: groupingKey_def example_defs)
  moreover from sec[of g2] gs have "sections g2 = List.map_filter sectionEntry [legacy]"
    by (simp add: groupingKey_def example_defs)
  ultimately show ?thesis
    using r gs
    by (simp add: List.map_filter_def sectionEntry_def example_defs)
qed

text \<open>
  Claim C6. The grouper never fails. A community candidate with a section name and no
  \<^verbatim>\<open>sectionId\<close> still yields a section entry in the group of its id, with the empty
  string as \<^verbatim>\<open>sectionId\<close> and \<^verbatim>\<open>sectionIndex\<close> 0 when the candidate has none.
  A community candidate without \<^verbatim>\<open>sharedWaterBodyId\<close> is skipped: the loop body
  returns its state unchanged, and the result is the one of the input without that
  candidate.
\<close>

theorem legacy_section_kept_missing_id_skipped:
  "(\<exists>r. getGroupedCandidates cs showOSM = Inr r \<and>
      (\<forall>c w sn.
         c \<in> set cs \<and> source c \<noteq> ''osm'' \<and> sharedWaterBodyId c = Some w \<and> w \<noteq> [] \<and>
         sectionName c = Some sn \<and> sn \<noteq> [] \<and> sectionId c = None
         \<longrightarrow> (\<exists>g \<in> set (groups r). waterBodyId g = w \<and>
                \<lparr>sectionIndex_s = (case sectionIndex c of None \<Rightarrow> 0 | Some i \<Rightarrow> i),
                 sectionId_s = [], sectionName_s = sn, candidate = c\<rparr> \<in> set (sections g)))) \<and>
   (\<forall>c. source c \<noteq> ''osm'' \<and> (sharedWaterBodyId c = None \<or> sharedWaterBodyId c = Some [])
      \<longrightarrow> (\<forall>st. loop_body showOSM st c = Inr st) \<and>
          getGroupedCandidates (xs @ c # ys) showOSM = getGroupedCandidates (xs @ ys) showOSM)"
proof (intro conjI allI impI)
  let ?r = "\<lparr>groups = expectedGroups cs, osmCandidates = externalOf showOSM cs\<rparr>"
  have "\<forall>c w sn.
         c \<in> set cs \<and> source c \<noteq> ''osm'' \<and> sharedWaterBodyId c = Some w \<and> w \<noteq> [] \<and>
         sectionName c = Some sn \<and> sn \<noteq> [] \<and> sectionId c = None
         \<longrightarrow> (\<exists>g \<in> set (expectedGroups cs). waterBodyId g = w \<and>
                \<lparr>sectionIndex_s = (case sectionIndex c of None \<Rightarrow> 0 | Some i \<Rightarrow> i),
                 sectionId_s = [], sectionName_s = sn, candidate = c\<rparr> \<in> set (sections g))"
  proof (intro allI impI)
    fix c w sn
    assume h: "c \<in> set cs \<and> source c \<noteq> ''osm'' \<and> sharedWaterBodyId c = Some w \<and> w \<noteq> [] \<and>
         sectionName c = Some sn \<and> sn \<noteq> [] \<and> sectionId c = None"
    then have key: "groupingKey c = Some w"
      by (simp add: groupingKey_def)
    with h have "w \<in> set (communityIds cs)"
      by (auto simp: set_communityIds)
    then obtain g where g: "groupFor cs w = Some g"
      using groupFor_None[of cs w] by auto
    have entry: "sectionEntry c =
        Some \<lparr>sectionIndex_s = (case sectionIndex c of None \<Rightarrow> 0 | Some i \<Rightarrow> i),
              sectionId_s = [], sectionName_s = sn, candidate = c\<rparr>"
      using h by (simp add: sectionEntry_def num_or_def str_or_def split: option.splits)
    have "\<lparr>sectionIndex_s = (case sectionIndex c of None \<Rightarrow> 0 | Some i \<Rightarrow> i),
              sectionId_s = [], sectionName_s = sn, candidate = c\<rparr> \<in> set (sectionsFor cs w)"
      using h key entry by (force simp: sectionsFor_def List.map_filter_def)
    with g show "\<exists>g \<in> set (expectedGroups cs). waterBodyId g = w \<and>
                \<lparr>sectionIndex_s = (case sectionIndex c of None \<Rightarrow> 0 | Some i \<Rightarrow> i),
                 sectionId_s = [], sectionName_s = sn, candidate = c\<rparr> \<in> set (sections g)"
      using groupFor_waterBodyId[OF g] groupFor_sections[OF g]
      by (auto simp: set_expectedGroups)
  qed
  then show "\<exists>r. getGroupedCandidates cs showOSM = Inr r \<and>
      (\<forall>c w sn.
         c \<in> set cs \<and> source c \<noteq> ''osm'' \<and> sharedWaterBodyId c = Some w \<and> w \<noteq> [] \<and>
         sectionName c = Some sn \<and> sn \<noteq> [] \<and> sectionId c = None
         \<longrightarrow> (\<exists>g \<in> set (groups r). waterBodyId g = w \<and>
                \<lparr>sectionIndex_s = (case sectionIndex c of None \<Rightarrow> 0 | Some i \<Rightarrow> i),
                 sectionId_s = [], sectionName_s = sn, candidate = c\<rparr> \<in> set (sections g)))"
    by (intro exI[of _ ?r] conjI getGroupedCandidates_eq)
      (simp only: GroupedCandidatesResult.select_convs)
next
  fix c :: WaterBodySearchResult and st
  assume "source c \<noteq> ''osm'' \<and> (sharedWaterBodyId c = None \<or> sharedWaterBodyId c = Some [])"
  then show "loop_body showOSM st c = Inr st"
    by (simp add: loop_body_no_id)
next
  fix c :: WaterBodySearchResult
  assume h: "source c \<noteq> ''osm'' \<and> (sharedWaterBodyId c = None \<or> sharedWaterBodyId c = Some [])"
  then have skip: "\<And>st. loop_body showOSM st c = Inr st"
    by (simp add: loop_body_no_id)
  have "loop showOSM ([], []) (xs @ c # ys) = loop showOSM ([], []) (xs @ ys)"
    by (simp add: loop_append skip split: sum.splits)
  then show "getGroupedCandidates (xs @ c # ys) showOSM = getGroupedCandidates (xs @ ys) showOSM"
    by (simp add: getGroupedCandidates_def)
qed

theorem legacy_section_kept_missing_id_skipped_witness:
  "(\<exists>r. getGroupedCandidates mixed_example True = Inr r \<and>
      (\<exists>g \<in> set (groups r). waterBodyId g = ''W2'' \<and>
          \<lparr>sectionIndex_s = 0, sectionId_s = [], sectionName_s = ''Legacy Section'',
           candidate = legacy\<rparr> \<in> set (sections g))) \<and>
   loop_body True ([], []) no_id = Inr ([], []) \<and>
   getGroupedCandidates ([lake_upper] @ no_id # [osm_lake]) True =
     getGroupedCandidates ([lake_upper] @ [osm_lake]) True"
proof -
  note inst = legacy_section_kept_missing_id_skipped[of mixed_example True "[lake_upper]" "[osm_lake]"]
  from inst obtain r where r: "getGroupedCandidates mixed_example True = Inr r"
    and keep: "\<And>c w sn. c \<in> set mixed_example \<and> source c \<noteq> ''osm'' \<and>
         sharedWaterBodyId c = Some w \<and> w \<noteq> [] \<and>
         sectionName c = Some sn \<and> sn \<noteq> [] \<and> sectionId c = None
         \<Longrightarrow> (\<exists>g \<in> set (groups r). waterBodyId g = w \<and>
                \<lparr>sectionIndex_s = (case sectionIndex c of None \<Rightarrow> 0 | Some i \<Rightarrow> i),
                 sectionId_s = [], sectionName_s = sn, candidate = c\<rparr> \<in> set (sections g))"
    by blast
  have "\<exists>g \<in> set (groups r). waterBodyId g = ''W2'' \<and>
          \<lparr>sectionIndex_s = 0, sectionId_s = [], sectionName_s = ''Legacy Section'',
           candidate = legacy\<rparr> \<in> set (sections g)"
    using keep[of legacy "''W2''" "''Legacy Section''"]
    by (simp add: example_defs)
  moreover from inst have "source no_id \<noteq> ''osm'' \<and>
       (sharedWaterBodyId no_id = None \<or> sharedWaterBodyId no_id = Some [])
      \<longrightarrow> (\<forall>st. loop_body True st no_id = Inr st) \<and>
          getGroupedCandidates ([lake_upper] @ no_id # [osm_lake]) True =
          getGroupedCandidates ([lake_upper] @ [osm_lake]) True"
    by blast
  then have "(\<forall>st. loop_body True st no_id = Inr st) \<and>
          getGroupedCandidates ([lake_upper] @ no_id # [osm_lake]) True =
          getGroupedCandidates ([lake_upper] @ [osm_lake]) True"
    by (simp add: no_id_def)
  ultimately show ?thesis using r by blast
qed

text \<open>
  Claim C7. The name, type and distance of a group are those of the first candidate of
  the input filed under the group's id. Candidates processed later leave them as they
  are: after any further candidates the group of that id has the same name, type and
  distance, and its sections extend the earlier ones.
\<close>

theorem header_from_first_candidate:
  "\<exists>r r'. getGroupedCandidates cs showOSM = Inr r \<and>
          getGroupedCandidates (cs @ later) showOSM = Inr r' \<and>
          (\<forall>g \<in> set (groups r).
             (\<exists>c0. find (\<lambda>c. groupingKey c = Some (waterBodyId g)) cs = Some c0 \<and>
                   name_g g = name c0 \<and> type_g g = type c0 \<and> distance_g g = distance c0) \<and>
             (\<exists>g' \<in> set (groups r').
                   waterBodyId g' = waterBodyId g \<and> name_g g' = name_g g \<and>
                   type_g g' = type_g g \<and> distance_g g' = distance_g g \<and>
                   prefix (sections g) (sections g')))"
proof -
  let ?r = "\<lparr>groups = expectedGroups cs, osmCandidates = externalOf showOSM cs\<rparr>"
  let ?r' = "\<lparr>groups = expectedGroups (cs @ later),
              osmCandidates = externalOf showOSM (cs @ later)\<rparr>"
  have "\<forall>g \<in> set (expectedGroups cs).
             (\<exists>c0. find (\<lambda>c. groupingKey c = Some (waterBodyId g)) cs = Some c0 \<and>
                   name_g g = name c0 \<and> type_g g = type c0 \<and> distance_g g = distance c0) \<and>
             (\<exists>g' \<in> set (expectedGroups (cs @ later)).
                   waterBodyId g' = waterBodyId g \<and> name_g g' = name_g g \<and>
                   type_g g' = type_g g \<and> distance_g g' = distance_g g \<and>
                   prefix (sections g) (sections g'))"
  proof
    fix g assume "g \<in> set (expectedGroups cs)"
    then have g: "groupFor cs (waterBodyId g) = Some g"
      by (simp add: in_expectedGroups)
    let ?g' = "g\<lparr>sections := sections g @ sectionsFor later (waterBodyId g)\<rparr>"
    from groupFor_append[OF g, of later] have "?g' \<in> set (expectedGroups (cs @ later))"
      by (auto simp: set_expectedGroups)
    moreover have "waterBodyId ?g' = waterBodyId g \<and> name_g ?g' = name_g g \<and>
                   type_g ?g' = type_g g \<and> distance_g ?g' = distance_g g \<and>
                   prefix (sections g) (sections ?g')"
      by simp
    ultimately have "\<exists>g' \<in> set (expectedGroups (cs @ later)).
                   waterBodyId g' = waterBodyId g \<and> name_g g' = name_g g \<and>
                   type_g g' = type_g g \<and> distance_g g' = distance_g g \<and>
                   prefix (sections g) (sections g')"
      by blast
    with groupFor_header[OF g]
    show "(\<exists>c0. find (\<lambda>c. groupingKey c = Some (waterBodyId g)) cs = Some c0 \<and>
                   name_g g = name c0 \<and> type_g g = type c0 \<and> distance_g g = distance c0) \<and>
             (\<exists>g' \<in> set (expectedGroups (cs @ later)).
                   waterBodyId g' = waterBodyId g \<and> name_g g' = name_g g \<and>
                   type_g g' = type_g g \<and> distance_g g' = distance_g g \<and>
                   prefix (sections g) (sections g'))"
      by blast
  qed
  then show ?thesis
    by (intro exI[of _ ?r] exI[of _ ?r'] conjI getGroupedCandidates_eq)
      (simp only: GroupedCandidatesResult.select_convs)
qed

theorem header_from_first_candidate_witness:
  "\<exists>r r'. getGroupedCandidates [lake_upper, legacy] True = Inr r \<and>
          getGroupedCandidates ([lake_upper, legacy] @ [lake_renamed, no_id, osm_lake, osm_lake]) True = Inr r' \<and>
          map name_g (groups r) = [''Lake A'', ''Legacy Lake''] \<and>
          map name_g (groups r') = [''Lake A'', ''Legacy Lake''] \<and>
          map distance_g (groups r') = [Some 500, Some 300] \<and>
          map type_g (groups r') = [Some ''lake'', Some ''lake''] \<and>
          map (\<lambda>g. length (sections g)) (groups r) = [1, 1] \<and>
          map (\<lambda>g. length (sections g)) (groups r') = [2, 1]"
proof -
  from header_from_first_candidate[of "[lake_upper, legacy]" True "[lake_renamed, no_id, osm_lake, osm_lake]"]
  obtain r r' where
    r: "getGroupedCandidates [lake_upper, legacy] True = Inr r"
    and r': "getGroupedCandidates ([lake_upper, legacy] @ [lake_renamed, no_id, osm_lake, osm_lake]) True = Inr r'"
    by blast
  from r have "map name_g (groups r) = [''Lake A'', ''Legacy Lake''] \<and>
     map (\<lambda>g. length (sections g)) (groups r) = [1, 1]"
    by (auto simp add: grouper_defs example_defs)
  moreover from r' have "map name_g (groups r') = [''Lake A'', ''Legacy Lake''] \<and>
          map distance_g (groups r') = [Some 500, Some 300] \<and>
          map type_g (groups r') = [Some ''lake'', Some ''lake''] \<and>
          map (\<lambda>g. length (sections g)) (groups r') = [2, 1]"
    by (auto simp add: grouper_defs example_defs)
  ultimately show ?thesis using r r'
    by (intro exI[of _ r] exI[of _ r']) simp
qed

text \<open>
  Claim C10. The groups of the result do not depend on \<^verbatim>\<open>showOSM\<close>: the two runs on
  the same input return the same groups.
\<close>

theorem groups_independent_of_toggle:
  "\<exists>r1 r2. getGroupedCandidates cs True = Inr r1 \<and>
           getGroupedCandidates cs False = Inr r2 \<and>
           groups r1 = groups r2"
  by (simp add: getGroupedCandidates_eq)

theorem groups_independent_of_toggle_witness:
  "\<exists>r1 r2. getGroupedCandidates mixed_example True = Inr r1 \<and>
           getGroupedCandidates mixed_example False = Inr r2 \<and>
           groups r1 = groups r2 \<and>
           osmCandidates r1 = [osm_lake, osm_lake] \<and> osmCandidates r2 = []"
proof -
  from groups_independent_of_toggle[of mixed_example] obtain r1 r2 where
    r: "getGroupedCandidates mixed_example True = Inr r1"
       "getGroupedCandidates mixed_example False = Inr r2" "groups r1 = groups r2"
    by blast
  from r(1) have "osmCandidates r1 = [osm_lake, osm_lake]"
    by (auto simp add: grouper_defs example_defs)
  moreover from r(2) have "osmCandidates r2 = []"
    by (auto simp add: grouper_defs example_defs)
  ultimately show ?thesis using r by blast
qed

section \<open>The distance sort\<close>

lemma insert_by_key:
  "(\<And>y. y \<in> set ys \<Longrightarrow> (cmp x y \<le> 0) = (f x \<le> f y)) \<Longrightarrow>
   insert_by cmp x ys = insort_key f x ys"
  by (induction ys) auto

lemma set_insert_by: "set (insert_by cmp x ys) = insert x (set ys)"
  by (induction ys) auto

lemma set_foldr_insert_by: "set (foldr (insert_by cmp) xs []) = set xs"
  by (induction xs) (auto simp: set_insert_by)

lemma foldr_insert_by_key:
  assumes "\<And>x y. x \<in> set xs \<Longrightarrow> y \<in> set xs \<Longrightarrow> (cmp x y \<le> 0) = (f x \<le> f y)"
  shows "foldr (insert_by cmp) xs [] = sort_key f xs"
  using assms
proof (induction xs)
  case Nil
  show ?case by simp
next
  case (Cons x xs)
  then have IH: "foldr (insert_by cmp) xs [] = sort_key f xs" by simp
  have "foldr (insert_by cmp) (x # xs) [] = insert_by cmp x (foldr (insert_by cmp) xs [])"
    by simp
  also have "\<dots> = insort_key f x (foldr (insert_by cmp) xs [])"
    by (rule insert_by_key) (simp add: set_foldr_insert_by Cons.prems)
  finally show ?case by (simp add: IH)
qed

lemma compareDistanceOrZero_consistent:
  "consistent_comparator compareDistanceOrZero xs"
  by (simp add: consistent_comparator_def compareDistanceOrZero_def)

lemma sortResults_key: "sortResults xs = Some (sort_key distanceOrZero xs)"
proof -
  have "foldr (insert_by compareDistanceOrZero) xs [] = sort_key distanceOrZero xs"
    by (rule foldr_insert_by_key) (simp add: compareDistanceOrZero_def distanceOrZero_def)
  then show ?thesis
    by (simp add: sortResults_def Array_sort_def compareDistanceOrZero_consistent)
qed

lemma compareDistanceIfDefined_different:
  assumes "distance_r x = Some dx" and "distance_r y = Some dy" and "dx \<noteq> dy"
    and "distance_r z = None" and "x \<in> set xs" and "y \<in> set xs" and "z \<in> set xs"
  shows "\<not> consistent_comparator compareDistanceIfDefined xs"
proof
  assume "consistent_comparator compareDistanceIfDefined xs"
  then have trans: "\<forall>a \<in> set xs. \<forall>b \<in> set xs. \<forall>c \<in> set xs.
      compareDistanceIfDefined a b = 0 \<and> compareDistanceIfDefined b c = 0 \<longrightarrow>
      compareDistanceIfDefined a c = 0"
    unfolding consistent_comparator_def by (elim conjE)
  have "compareDistanceIfDefined x z = 0" "compareDistanceIfDefined z y = 0"
    using assms(1,2,4) by (simp_all add: compareDistanceIfDefined_def)
  with trans assms(5-7) have "compareDistanceIfDefined x y = 0"
    by blast
  with assms(1-3) show False
    by (simp add: compareDistanceIfDefined_def)
qed

lemma compareDistanceIfDefined_present:
  assumes "distance_r x \<noteq> None" and "distance_r y \<noteq> None"
  shows "compareDistanceIfDefined x y = distanceOrZero x - distanceOrZero y"
  using assms by (auto simp: compareDistanceIfDefined_def distanceOrZero_def num_or_def)

lemma sortResultsIfDefined_all:
  assumes "\<forall>r \<in> set xs. distance_r r \<noteq> None"
  shows "sortResultsIfDefined xs = sortResults xs"
proof -
  have diff: "compareDistanceIfDefined x y = distanceOrZero x - distanceOrZero y"
    if "x \<in> set xs" "y \<in> set xs" for x y
    using that assms by (simp add: compareDistanceIfDefined_present)
  have "consistent_comparator compareDistanceIfDefined xs"
    by (simp add: consistent_comparator_def diff)
  moreover have "foldr (insert_by compareDistanceIfDefined) xs [] = sort_key distanceOrZero xs"
    by (rule foldr_insert_by_key) (simp add: diff)
  ultimately show ?thesis
    by (simp add: sortResultsIfDefined_def Array_sort_def sortResults_key)
qed

lemma sortResultsIfDefined_equal:
  assumes "\<forall>r \<in> set xs. \<forall>s \<in> set xs.
             distance_r r \<noteq> None \<and> distance_r s \<noteq> None \<longrightarrow> distance_r r = distance_r s"
  shows "sortResultsIfDefined xs = Some xs"
proof -
  have zero: "compareDistanceIfDefined x y = 0" if "x \<in> set xs" "y \<in> set xs" for x y
  proof (cases "distance_r x \<noteq> None \<and> distance_r y \<noteq> None")
    case True
    with assms that have "distance_r x = distance_r y" by blast
    with True show ?thesis by (auto simp: compareDistanceIfDefined_def)
  next
    case False
    then show ?thesis by (auto simp: compareDistanceIfDefined_def split: option.splits)
  qed
  have "consistent_comparator compareDistanceIfDefined xs"
    by (simp add: consistent_comparator_def zero)
  moreover have "foldr (insert_by compareDistanceIfDefined) xs [] = sort_key (\<lambda>r. 0::number) xs"
    by (rule foldr_insert_by_key) (simp add: zero)
  ultimately show ?thesis
    by (simp add: sortResultsIfDefined_def Array_sort_def sort_key_const)
qed

lemma sortResultsIfDefined_mixed:
  assumes "\<not> (\<forall>r \<in> set xs. distance_r r \<noteq> None)"
    and "\<not> (\<forall>r \<in> set xs. \<forall>s \<in> set xs.
             distance_r r \<noteq> None \<and> distance_r s \<noteq> None \<longrightarrow> distance_r r = distance_r s)"
  shows "sortResultsIfDefined xs = None"
proof -
  from assms(1) obtain z where z: "z \<in> set xs" "distance_r z = None" by blast
  from assms(2) obtain x y dx dy where xy: "x \<in> set xs" "y \<in> set xs"
    "distance_r x = Some dx" "distance_r y = Some dy" "dx \<noteq> dy"
    by auto
  have "\<not> consistent_comparator compareDistanceIfDefined xs"
    by (rule compareDistanceIfDefined_different[OF xy(3) xy(4) xy(5) z(2) xy(1) xy(2) z(1)])
  then show ?thesis
    by (simp add: sortResultsIfDefined_def Array_sort_def)
qed

lemma sortResultsIfDefined_cases:
  "sortResultsIfDefined xs =
     (if \<forall>r \<in> set xs. distance_r r \<noteq> None then sortResults xs
      else if \<forall>r \<in> set xs. \<forall>s \<in> set xs.
                distance_r r \<noteq> None \<and> distance_r s \<noteq> None \<longrightarrow> distance_r r = distance_r s
      then Some xs
      else None)"
proof (cases "\<forall>r \<in> set xs. distance_r r \<noteq> None")
  case True
  show ?thesis unfolding if_P[OF True] by (rule sortResultsIfDefined_all[OF True])
next
  case lacking: False
  show ?thesis
  proof (cases "\<forall>r \<in> set xs. \<forall>s \<in> set xs.
                distance_r r \<noteq> None \<and> distance_r s \<noteq> None \<longrightarrow> distance_r r = distance_r s")
    case True
    show ?thesis unfolding if_not_P[OF lacking] if_P[OF True]
      by (rule sortResultsIfDefined_equal[OF True])
  next
    case False
    show ?thesis unfolding if_not_P[OF lacking] if_not_P[OF False]
      by (rule sortResultsIfDefined_mixed[OF lacking False])
  qed
qed

lemma filter_lacking_key:
  "filter (\<lambda>r. distance_r r = None) ys =
   filter (\<lambda>r. distance_r r = None) (filter (\<lambda>r. distanceOrZero r = 0) ys)"
  by (induction ys) (auto simp: distanceOrZero_def num_or_def)

lemma sorted_nth_key:
  assumes "sorted (map f ys)" and "i < j" and "j < length ys"
  shows "f (ys ! i) \<le> f (ys ! j)"
  using assms sorted_nth_mono[of "map f ys" i j] by simp



text \<open>
  Claim C3, as stated, fails: neither sort of \<^verbatim>\<open>searchCombined\<close> moves an entry
  without a distance behind the entries that have one. On the list of an entry without
  a distance followed by an entry at distance 5, both comparators are consistent and
  both sorts return the list unchanged.
\<close>

theorem missing_distance_last_counterexample:
  "sortResults [result_at ''a'' None, result_at ''b'' (Some 5)] =
     Some [result_at ''a'' None, result_at ''b'' (Some 5)] \<and>
   sortResultsIfDefined [result_at ''a'' None, result_at ''b'' (Some 5)] =
     Some [result_at ''a'' None, result_at ''b'' (Some 5)]"
  by (simp add: sortResults_def sortResultsIfDefined_def Array_sort_def consistent_comparator_def
      compareDistanceOrZero_def compareDistanceIfDefined_def num_or_def result_at_def)

text \<open>
  Claim C3, amended, for lists whose distances, where present, are finite numbers. The
  sort of \<^verbatim>\<open>waterBodyService.searchCombined\<close> orders an entry without a distance as if
  its distance were 0. Its comparator is consistent on every list, and the result is the
  input stably sorted by \<^verbatim>\<open>distance || 0\<close>: a permutation of the input, ascending in
  that key, in which the entries of equal key keep their input order. So the entries without a distance keep their input order, and no entry with a
  positive distance comes before an entry without one. The later comparator gives the
  same result on a list whose entries all have a distance. On a list with an entry
  without a distance it is consistent only if the distances that are present are all
  equal, and the list is returned unchanged then; otherwise it is inconsistent, and
  ECMAScript leaves the order to the engine.
\<close>

theorem missing_distance_counts_as_zero:
  "(\<exists>ys. sortResults xs = Some ys \<and>
         mset ys = mset xs \<and>
         sorted (map distanceOrZero ys) \<and>
         (\<forall>k. filter (\<lambda>r. distanceOrZero r = k) ys = filter (\<lambda>r. distanceOrZero r = k) xs) \<and>
         filter (\<lambda>r. distance_r r = None) ys = filter (\<lambda>r. distance_r r = None) xs \<and>
         (\<forall>i j d. i < j \<and> j < length ys \<and> distance_r (ys ! j) = None \<and>
                  distance_r (ys ! i) = Some d \<longrightarrow> d \<le> 0)) \<and>
   sortResultsIfDefined xs =
     (if \<forall>r \<in> set xs. distance_r r \<noteq> None then sortResults xs
      else if \<forall>r \<in> set xs. \<forall>s \<in> set xs.
                distance_r r \<noteq> None \<and> distance_r s \<noteq> None \<longrightarrow> distance_r r = distance_r s
      then Some xs
      else None)"
proof (rule conjI)
  let ?ys = "sort_key distanceOrZero xs"
  have sorted: "sorted (map distanceOrZero ?ys)" by simp
  have stable: "filter (\<lambda>r. distanceOrZero r = k) ?ys = filter (\<lambda>r. distanceOrZero r = k) xs" for k
    by (rule sort_key_stable)
  have lacking: "filter (\<lambda>r. distance_r r = None) ?ys = filter (\<lambda>r. distance_r r = None) xs"
    using filter_lacking_key[of ?ys] filter_lacking_key[of xs] by (simp only: stable)
  have before: "d \<le> 0" if h: "i < j \<and> j < length ?ys \<and> distance_r (?ys ! j) = None \<and>
      distance_r (?ys ! i) = Some d" for i j d
  proof -
    from sorted_nth_key[OF sorted, of i j] h
    have "distanceOrZero (?ys ! i) \<le> distanceOrZero (?ys ! j)" by simp
    with h show ?thesis by (simp add: distanceOrZero_def num_or_def split: if_splits)
  qed
  show "\<exists>ys. sortResults xs = Some ys \<and>
         mset ys = mset xs \<and>
         sorted (map distanceOrZero ys) \<and>
         (\<forall>k. filter (\<lambda>r. distanceOrZero r = k) ys = filter (\<lambda>r. distanceOrZero r = k) xs) \<and>
         filter (\<lambda>r. distance_r r = None) ys = filter (\<lambda>r. distance_r r = None) xs \<and>
         (\<forall>i j d. i < j \<and> j < length ys \<and> distance_r (ys ! j) = None \<and>
                  distance_r (ys ! i) = Some d \<longrightarrow> d \<le> 0)"
  proof (intro exI[of _ ?ys] conjI allI impI)
    show "sortResults xs = Some ?ys" by (rule sortResults_key)
    show "mset ?ys = mset xs" by simp
    show "sorted (map distanceOrZero ?ys)" by (rule sorted)
    show "filter (\<lambda>r. distanceOrZero r = k) ?ys = filter (\<lambda>r. distanceOrZero r = k) xs" for k
      by (rule stable)
    show "filter (\<lambda>r. distance_r r = None) ?ys = filter (\<lambda>r. distance_r r = None) xs"
      by (rule lacking)
    show "d \<le> 0" if "i < j \<and> j < length ?ys \<and> distance_r (?ys ! j) = None \<and>
      distance_r (?ys ! i) = Some d" for i j d
      using that by (rule before)
  qed
  show "sortResultsIfDefined xs =
     (if \<forall>r \<in> set xs. distance_r r \<noteq> None then sortResults xs
      else if \<forall>r \<in> set xs. \<forall>s \<in> set xs.
                distance_r r \<noteq> None \<and> distance_r s \<noteq> None \<longrightarrow> distance_r r = distance_r s
      then Some xs
      else None)"
    by (rule sortResultsIfDefined_cases)
qed


text \<open>
  Examples: a list with and without distances under the first sort; under the later
  comparator a list of entries that all have a distance, a list whose present distances
  are equal, and the list of distances 2, 1, none, 0.5, on which it is inconsistent.
\<close>

theorem missing_distance_counts_as_zero_witness:
  "sortResults [result_at ''nine'' (Some 9), result_at ''a'' None,
                result_at ''five'' (Some 5), result_at ''b'' None] =
     Some [result_at ''a'' None, result_at ''b'' None,
           result_at ''five'' (Some 5), result_at ''nine'' (Some 9)] \<and>
   sortResults [result_at ''here'' (Some 0), result_at ''a'' None] =
     Some [result_at ''here'' (Some 0), result_at ''a'' None] \<and>
   sortResultsIfDefined [result_at ''nine'' (Some 9), result_at ''five'' (Some 5)] =
     Some [result_at ''five'' (Some 5), result_at ''nine'' (Some 9)] \<and>
   sortResultsIfDefined [result_at ''a'' None, result_at ''five'' (Some 5),
                         result_at ''b'' None, result_at ''also five'' (Some 5)] =
     Some [result_at ''a'' None, result_at ''five'' (Some 5),
           result_at ''b'' None, result_at ''also five'' (Some 5)] \<and>
   sortResultsIfDefined [result_at ''two'' (Some 2), result_at ''one'' (Some 1),
                         result_at ''a'' None, result_at ''half'' (Some (1 / 2))] = None"
proof -
  have eval: "sortResults xs = Some (foldr (insert_by compareDistanceOrZero) xs [])" for xs
    by (simp add: sortResults_def Array_sort_def compareDistanceOrZero_consistent)
  have a: "sortResults [result_at ''nine'' (Some 9), result_at ''a'' None,
                result_at ''five'' (Some 5), result_at ''b'' None] =
     Some [result_at ''a'' None, result_at ''b'' None,
           result_at ''five'' (Some 5), result_at ''nine'' (Some 9)]"
    by (simp add: eval compareDistanceOrZero_def num_or_def result_at_def)
  have b: "sortResults [result_at ''here'' (Some 0), result_at ''a'' None] =
     Some [result_at ''here'' (Some 0), result_at ''a'' None]"
    by (simp add: eval compareDistanceOrZero_def num_or_def result_at_def)
  have "sortResults [result_at ''nine'' (Some 9), result_at ''five'' (Some 5)] =
     Some [result_at ''five'' (Some 5), result_at ''nine'' (Some 9)]"
    by (simp add: eval compareDistanceOrZero_def num_or_def result_at_def)
  with missing_distance_counts_as_zero[of "[result_at ''nine'' (Some 9), result_at ''five'' (Some 5)]"]
  have c: "sortResultsIfDefined [result_at ''nine'' (Some 9), result_at ''five'' (Some 5)] =
     Some [result_at ''five'' (Some 5), result_at ''nine'' (Some 9)]"
    by (simp add: result_at_def)
  from missing_distance_counts_as_zero[of "[result_at ''a'' None, result_at ''five'' (Some 5),
                         result_at ''b'' None, result_at ''also five'' (Some 5)]"]
  have d: "sortResultsIfDefined [result_at ''a'' None, result_at ''five'' (Some 5),
                         result_at ''b'' None, result_at ''also five'' (Some 5)] =
     Some [result_at ''a'' None, result_at ''five'' (Some 5),
           result_at ''b'' None, result_at ''also five'' (Some 5)]"
    by (simp add: result_at_def)
  from missing_distance_counts_as_zero[of "[result_at ''two'' (Some 2), result_at ''one'' (Some 1),
                         result_at ''a'' None, result_at ''half'' (Some (1 / 2))]"]
  have e: "sortResultsIfDefined [result_at ''two'' (Some 2), result_at ''one'' (Some 1),
                         result_at ''a'' None, result_at ''half'' (Some (1 / 2))] = None"
    by (simp add: result_at_def)
  from a b c d e show ?thesis by (intro conjI)
qed

section \<open>Formatting a distance\<close>

lemma digit_char_eval:
  "digit_char 0 = CHR ''0''" "digit_char (Suc 0) = CHR ''1''" "digit_char 2 = CHR ''2''"
  "digit_char 3 = CHR ''3''" "digit_char 4 = CHR ''4''" "digit_char 5 = CHR ''5''"
  "digit_char 6 = CHR ''6''" "digit_char 7 = CHR ''7''" "digit_char 8 = CHR ''8''"
  "digit_char 9 = CHR ''9''"
  unfolding digit_char_def by code_simp+

lemmas to_double_eval = divide_double_def to_double_def round_half_even_def ilog2.simps Let_def

lemma to_double_big:
  "to_double 1000000000000000000000 = 1000000000000000000000"
  "to_double 2000000000000000000000 = 2000000000000000000000"
  "to_double 10000000000000000000000 = 10000000000000000000000"
  by (simp_all add: to_double_eval)

lemma big_digits: "length (digits 1000000000000000000000) = 22"
  by (simp add: digits.simps)

lemma big_candidates: "candidates 1000000000000000000000 1 = [(1, 22)]"
  by (simp add: candidates_def big_digits fits_def to_double_big)

lemma big_shortest: "shortest_from 1000000000000000000000 1 17 = Some (1, 1, 22)"
proof -
  have "shortest_from 1000000000000000000000 1 (Suc 16) = Some (1, 1, 22)"
    by (simp only: shortest_from.simps big_candidates list.case foldl_Nil prod.case)
  then show ?thesis by simp
qed

lemma big_toString: "Number_toString_nat 1000000000000000000000 = ''1e+21''"
  using big_shortest
  by (simp add: Number_toString_nat_def digits.simps digit_char_eval)

lemma big_quotient: "divide_double 999999999999999983222784 1000 = 1000000000000000000000"
  by (simp add: to_double_eval)

lemma digit_char_decimal:
  assumes "d < 10"
  shows "digit_char d \<in> set ''0123456789''"
proof -
  from assms have "d = 0 \<or> d = Suc 0 \<or> d = 2 \<or> d = 3 \<or> d = 4 \<or> d = 5 \<or> d = 6 \<or> d = 7 \<or> d = 8 \<or> d = 9"
    by arith
  then show ?thesis
    using digit_char_eval by auto
qed

lemma digits_decimal: "set (digits n) \<subseteq> set ''0123456789''"
proof (induction n rule: digits.induct)
  case (1 n)
  show ?case
  proof (cases "n < 10")
    case True
    then show ?thesis
      using digit_char_decimal[of n] by (subst digits.simps) simp
  next
    case False
    have "n mod 10 < 10" by simp
    from digit_char_decimal[OF this] 1[OF False] False show ?thesis
      by (subst digits.simps) simp
  qed
qed

lemma digits_small: "n < 10 \<Longrightarrow> digits n = [digit_char n]"
  by (subst digits.simps) simp

lemma round_half_even_nonneg: "0 \<le> y \<Longrightarrow> 0 \<le> round_half_even y"
  by (auto simp: round_half_even_def Let_def)

lemma to_double_nonneg: "0 \<le> x \<Longrightarrow> 0 \<le> to_double x"
  by (simp add: to_double_def Let_def round_half_even_nonneg)

lemma formatDistance_meters:
  assumes "0 \<le> meters" and "meters < 1000"
  shows "formatDistance meters = digits (nat \<lfloor>meters + 1 / 2\<rfloor>) @ ''m''"
proof -
  from assms have lo: "0 \<le> \<lfloor>meters + 1 / 2\<rfloor>" by simp
  from assms have "\<lfloor>meters + 1 / 2\<rfloor> \<le> 1000" by linarith
  then have "nat \<lfloor>meters + 1 / 2\<rfloor> \<le> 1000" by linarith
  then have "nat \<lfloor>meters + 1 / 2\<rfloor> < 2 ^ 53" by simp
  with lo assms show ?thesis
    by (simp add: formatDistance_def Math_round_def Number_toString_def Number_toString_nat_def)
qed

lemma formatDistance_km:
  assumes "1000 \<le> meters" and "divide_double meters 1000 < 10 ^ 21"
  shows "formatDistance meters =
     digits (nat \<lfloor>divide_double meters 1000 * 10 + 1 / 2\<rfloor> div 10) @ ''.'' @
     [digit_char (nat \<lfloor>divide_double meters 1000 * 10 + 1 / 2\<rfloor> mod 10)] @ ''km''"
proof -
  from assms(1) have "0 \<le> divide_double meters 1000"
    unfolding divide_double_def by (intro to_double_nonneg) simp
  with assms show ?thesis
    by (simp add: formatDistance_def toFixed1_def Let_def digits_small)
qed

lemma nearest_tenth:
  assumes "0 \<le> (q::real)"
  shows "\<bar>real (nat \<lfloor>q * 10 + 1 / 2\<rfloor>) / 10 - q\<bar> \<le> 1 / 20"
proof -
  from assms have "0 \<le> \<lfloor>q * 10 + 1 / 2\<rfloor>" by simp
  then have "real (nat \<lfloor>q * 10 + 1 / 2\<rfloor>) = of_int \<lfloor>q * 10 + 1 / 2\<rfloor>" by simp
  moreover have "of_int \<lfloor>q * 10 + 1 / 2\<rfloor> \<le> q * 10 + 1 / 2" by (rule of_int_floor_le)
  moreover have "q * 10 + 1 / 2 < of_int \<lfloor>q * 10 + 1 / 2\<rfloor> + 1" by linarith
  ultimately show ?thesis by linarith
qed

lemma format_999: "formatDistance 999 = ''999m''"
  by (simp add: formatDistance_meters digits.simps digit_char_eval)

lemma quotient_1000: "divide_double 1000 1000 = 1"
  by (simp add: to_double_eval)

lemma format_1000: "formatDistance 1000 = ''1.0km''"
  by (simp add: formatDistance_km quotient_1000 digits.simps digit_char_eval)

lemma quotient_10250: "divide_double 10250 1000 = 41 / 4"
  by (simp add: to_double_eval)

text \<open>
  Claim C8, as stated, fails for very large values: from a quotient of \<open>10\<^sup>2\<^sup>1\<close> on,
  \<^verbatim>\<open>toFixed\<close> answers in exponent notation. For the double written \<^verbatim>\<open>1e24\<close>
  (which is 999999999999999983222784) the quotient by 1000 rounds to \<open>10\<^sup>2\<^sup>1\<close> and the
  result is \<^verbatim>\<open>1e+21km\<close>, with no decimal place.
\<close>

theorem formatDistance_exponent_counterexample: "formatDistance 999999999999999983222784 = ''1e+21km''"
  by (simp add: formatDistance_def big_quotient toFixed1_def big_toString)

text \<open>
  Claim C8, amended. For \<open>0 \<le> meters < 1000\<close>, \<^verbatim>\<open>formatDistance\<close> returns the decimal
  digits of the nearest integer (the larger of two) followed by \<^verbatim>\<open>m\<close>. For
  \<open>meters \<ge> 1000\<close> whose quotient by 1000 is below \<open>10\<^sup>2\<^sup>1\<close> it returns the digits of
  the integer part, a point, exactly one digit and \<^verbatim>\<open>km\<close>, the number shown being
  within 0.05 of the quotient. In particular \<^verbatim>\<open>formatDistance(999)\<close> is \<^verbatim>\<open>999m\<close>
  and \<^verbatim>\<open>formatDistance(1000)\<close> is \<^verbatim>\<open>1.0km\<close>.
\<close>

theorem formatDistance_below_exponent_range:
  "(0 \<le> meters \<and> meters < 1000 \<longrightarrow>
      formatDistance meters = digits (nat \<lfloor>meters + 1 / 2\<rfloor>) @ ''m'') \<and>
   (1000 \<le> meters \<and> divide_double meters 1000 < 10 ^ 21 \<longrightarrow>
      formatDistance meters =
        digits (nat \<lfloor>divide_double meters 1000 * 10 + 1 / 2\<rfloor> div 10) @ ''.'' @
        [digit_char (nat \<lfloor>divide_double meters 1000 * 10 + 1 / 2\<rfloor> mod 10)] @ ''km'' \<and>
      \<bar>real (nat \<lfloor>divide_double meters 1000 * 10 + 1 / 2\<rfloor>) / 10 -
         divide_double meters 1000\<bar> \<le> 1 / 20) \<and>
   (\<forall>k d. set (digits k) \<subseteq> set ''0123456789'' \<and>
          (d < 10 \<longrightarrow> digit_char d \<in> set ''0123456789'')) \<and>
   formatDistance 999 = ''999m'' \<and> formatDistance 1000 = ''1.0km''"
proof (intro conjI impI allI)
  show "formatDistance meters = digits (nat \<lfloor>meters + 1 / 2\<rfloor>) @ ''m''"
    if "0 \<le> meters \<and> meters < 1000"
    using that by (simp add: formatDistance_meters)
  show "formatDistance meters =
        digits (nat \<lfloor>divide_double meters 1000 * 10 + 1 / 2\<rfloor> div 10) @ ''.'' @
        [digit_char (nat \<lfloor>divide_double meters 1000 * 10 + 1 / 2\<rfloor> mod 10)] @ ''km''"
    if "1000 \<le> meters \<and> divide_double meters 1000 < 10 ^ 21"
    using that formatDistance_km[of meters] by blast
  show "\<bar>real (nat \<lfloor>divide_double meters 1000 * 10 + 1 / 2\<rfloor>) / 10 -
         divide_double meters 1000\<bar> \<le> 1 / 20"
    if "1000 \<le> meters \<and> divide_double meters 1000 < 10 ^ 21"
  proof -
    from that have "0 \<le> divide_double meters 1000"
      unfolding divide_double_def by (intro to_double_nonneg) simp
    then show ?thesis by (rule nearest_tenth)
  qed
  show "set (digits k) \<subseteq> set ''0123456789''" for k
    by (rule digits_decimal)
  show "digit_char d \<in> set ''0123456789''" if "d < 10" for d
    using that by (rule digit_char_decimal)
  show "formatDistance 999 = ''999m''" by (rule format_999)
  show "formatDistance 1000 = ''1.0km''" by (rule format_1000)
qed

theorem formatDistance_below_exponent_range_witness:
  "formatDistance (1999 / 2) = ''1000m'' \<and> formatDistance 10250 = ''10.3km''"
proof -
  have "formatDistance (1999 / 2) = digits (nat \<lfloor>(1999 / 2 :: real) + 1 / 2\<rfloor>) @ ''m''"
    using formatDistance_below_exponent_range[of "1999 / 2"] by simp
  then have a: "formatDistance (1999 / 2) = ''1000m''"
    by (simp add: digits.simps digit_char_eval)
  have "(1000::real) \<le> 10250 \<and> divide_double 10250 1000 < 10 ^ 21"
    by (simp add: quotient_10250)
  with formatDistance_below_exponent_range[of 10250]
  have "formatDistance 10250 =
        digits (nat \<lfloor>divide_double 10250 1000 * 10 + 1 / 2\<rfloor> div 10) @ ''.'' @
        [digit_char (nat \<lfloor>divide_double 10250 1000 * 10 + 1 / 2\<rfloor> mod 10)] @ ''km''"
    by blast
  then have "formatDistance 10250 = ''10.3km''"
    by (simp add: quotient_10250 digits.simps digit_char_eval)
  with a show ?thesis by simp
qed

section \<open>The distance between two coordinates\<close>

subsection \<open>Rounding\<close>

lemmas round_eval = round_double_def binade_def round_half_even_def ilog2.simps Let_def
  signed_infinity_def pow2_def

lemma round_double_minus: "round_double (- x) = js_negate (round_double x)"
  by (simp add: round_double_def Let_def signed_infinity_def)

lemma ilog2_power_le: "0 < n \<Longrightarrow> 2 ^ ilog2 n \<le> n"
proof (induction n rule: ilog2.induct)
  case (1 n)
  show ?case
  proof (cases "n < 2")
    case True
    with 1 show ?thesis by (simp add: ilog2.simps)
  next
    case False
    then have "0 < n div 2" by simp
    with 1 False have "2 ^ ilog2 (n div 2) \<le> n div 2" by simp
    then have "2 * 2 ^ ilog2 (n div 2) \<le> n" by simp
    with False show ?thesis by (simp add: ilog2.simps[of n])
  qed
qed

lemma pow2_pos: "0 < pow2 k"
  by (simp add: pow2_def)

lemma pow2_le_one: "k \<le> 0 \<Longrightarrow> pow2 k \<le> 1"
  by (auto simp: pow2_def divide_le_eq_1 one_le_power)

lemma ulp_le:
  "pow2 (max (binade \<bar>x\<bar>) (- 1022) - 52) \<le> max \<bar>x\<bar> 1"
proof (cases "1 \<le> \<bar>x\<bar>")
  case True
  define n where "n = nat \<lfloor>\<bar>x\<bar>\<rfloor>"
  from True have n: "0 < n" "real n \<le> \<bar>x\<bar>"
    by (simp_all add: n_def)
  have b: "binade \<bar>x\<bar> = int (ilog2 n)"
    using True by (simp add: binade_def n_def)
  have "pow2 (int (ilog2 n) - 52) \<le> 2 ^ ilog2 n"
  proof (cases "52 \<le> ilog2 n")
    case True
    then have "pow2 (int (ilog2 n) - 52) = 2 ^ (ilog2 n - 52)"
      by (simp add: pow2_def nat_diff_distrib')
    also have "\<dots> \<le> (2::real) ^ ilog2 n"
      by (rule power_increasing) simp_all
    finally show ?thesis .
  next
    case False
    then have "pow2 (int (ilog2 n) - 52) \<le> 1"
      by (intro pow2_le_one) simp
    also have "\<dots> \<le> (2::real) ^ ilog2 n" by simp
    finally show ?thesis .
  qed
  also have "(2::real) ^ ilog2 n \<le> real n"
    using ilog2_power_le[OF n(1)] by (metis of_nat_le_iff of_nat_numeral of_nat_power)
  finally show ?thesis using n(2) b by simp
next
  case False
  then have "binade \<bar>x\<bar> < 0" by (simp add: binade_def)
  then have "pow2 (max (binade \<bar>x\<bar>) (- 1022) - 52) \<le> 1"
    by (intro pow2_le_one) simp
  then show ?thesis by simp
qed

lemma round_half_even_cases:
  "round_half_even t = \<lfloor>t\<rfloor> \<or> round_half_even t = \<lfloor>t\<rfloor> + 1"
  by (simp add: round_half_even_def Let_def)

lemma round_half_even_bounds:
  assumes "0 \<le> t"
  shows "0 \<le> round_half_even t" and "real_of_int (round_half_even t) \<le> t + 1"
proof -
  from assms have "0 \<le> \<lfloor>t\<rfloor>" by simp
  then show "0 \<le> round_half_even t"
    by (simp add: round_half_even_def Let_def)
  have "round_half_even t = \<lfloor>t\<rfloor> \<or> round_half_even t = \<lfloor>t\<rfloor> + 1"
    by (simp add: round_half_even_def Let_def)
  moreover have "real_of_int \<lfloor>t\<rfloor> \<le> t" by (rule of_int_floor_le)
  ultimately show "real_of_int (round_half_even t) \<le> t + 1"
    by (elim disjE) (simp only: of_int_add of_int_1, linarith)+
qed

lemma round_half_even_near:
  assumes "real_of_int N - 1 / 2 < u" and "u < real_of_int N + 1 / 2"
  shows "round_half_even u = N"
proof -
  have "N - 1 \<le> \<lfloor>u\<rfloor>" using assms(1) by (simp add: le_floor_iff)
  moreover have "\<lfloor>u\<rfloor> \<le> N" using assms(2) by (simp add: floor_le_iff)
  ultimately consider "\<lfloor>u\<rfloor> = N" | "\<lfloor>u\<rfloor> = N - 1" by linarith
  then show ?thesis
  proof cases
    case 1
    with assms(2) show ?thesis by (simp add: round_half_even_def Let_def)
  next
    case 2
    with assms(1) show ?thesis by (simp add: round_half_even_def Let_def)
  qed
qed

text \<open>A real of moderate size is rounded to a finite number, of at most twice its size plus one.\<close>

lemma round_double_finite:
  assumes "2 * \<bar>x\<bar> + 1 < 2 ^ 1024"
  shows "\<exists>v. round_double x = Num v \<and> \<bar>v\<bar> \<le> 2 * \<bar>x\<bar> + 1"
proof (cases "x = 0")
  case True
  then show ?thesis by (simp add: round_double_def)
next
  case False
  define ulp where "ulp = pow2 (max (binade \<bar>x\<bar>) (- 1022) - 52)"
  define y where "y = real_of_int (round_half_even (\<bar>x\<bar> / ulp)) * ulp"
  have ulp: "0 < ulp" "ulp \<le> max \<bar>x\<bar> 1"
    by (simp_all add: ulp_def pow2_pos ulp_le)
  then have t: "0 \<le> \<bar>x\<bar> / ulp" by simp
  have "y \<le> (\<bar>x\<bar> / ulp + 1) * ulp"
    unfolding y_def using round_half_even_bounds(2)[OF t] ulp(1)
    by (intro mult_right_mono) simp_all
  also have "\<dots> = \<bar>x\<bar> + ulp" using ulp(1) by (simp add: field_simps)
  also have "\<dots> \<le> 2 * \<bar>x\<bar> + 1" using ulp(2) by simp
  finally have le: "y \<le> 2 * \<bar>x\<bar> + 1" .
  have ge: "0 \<le> y"
    unfolding y_def using round_half_even_bounds(1)[OF t] ulp(1) by simp
  from le assms have "\<not> 2 ^ 1024 \<le> y" by simp
  then have "round_double x = Num (if x < 0 then - y else y)"
    using False by (simp add: round_double_def Let_def ulp_def y_def)
  with le ge show ?thesis by (cases "x < 0") simp_all
qed

lemma round_double_unit:
  assumes "\<bar>t\<bar> \<le> 1"
  shows "\<exists>v. round_double t = Num v \<and> \<bar>v\<bar> \<le> 1"
proof -
  consider "t = 0" | "t = 1" | "t = - 1" | "0 < \<bar>t\<bar>" "\<bar>t\<bar> < 1"
    using assms by linarith
  then show ?thesis
  proof cases
    case 1
    then show ?thesis by (simp add: round_double_def)
  next
    case 2
    then show ?thesis by (simp add: round_eval)
  next
    case 3
    then show ?thesis by (simp add: round_double_minus round_eval)
  next
    case 4
    define e where "e = max (binade \<bar>t\<bar>) (- 1022)"
    define m where "m = nat (52 - e)"
    define y where "y = real_of_int (round_half_even (\<bar>t\<bar> / pow2 (e - 52))) * pow2 (e - 52)"
    from 4 have "binade \<bar>t\<bar> < 0" by (simp add: binade_def)
    then have e: "e < 0" by (simp add: e_def)
    then have ulp: "pow2 (e - 52) = 1 / 2 ^ m"
      by (simp add: pow2_def m_def)
    have "\<bar>t\<bar> * 2 ^ m < real_of_int (2 ^ m)"
      using 4 by simp
    then have "\<lfloor>\<bar>t\<bar> * 2 ^ m\<rfloor> < 2 ^ m"
      by (simp only: floor_less_iff)
    with round_half_even_cases[of "\<bar>t\<bar> * 2 ^ m"]
    have "round_half_even (\<bar>t\<bar> * 2 ^ m) \<le> 2 ^ m" by linarith
    then have "real_of_int (round_half_even (\<bar>t\<bar> * 2 ^ m)) \<le> real_of_int (2 ^ m)"
      by (simp only: of_int_le_iff)
    then have le: "y \<le> 1"
      by (simp add: y_def ulp field_simps)
    have "0 \<le> \<bar>t\<bar> * 2 ^ m" by simp
    from round_half_even_bounds(1)[OF this] have ge: "0 \<le> y"
      by (simp add: y_def ulp)
    have "(1::real) < 2 ^ 1024" by simp
    with le have "\<not> 2 ^ 1024 \<le> y" by linarith
    then have "round_double t = Num (if t < 0 then - y else y)"
      using 4 by (auto simp: round_double_def Let_def y_def e_def)
    with le ge show ?thesis by (cases "t < 0") simp_all
  qed
qed

lemma pow2_ulp: "pow2 (int k - 52) = 2 ^ k / 2 ^ 52"
proof (cases "52 \<le> k")
  case True
  then show ?thesis
    by (simp add: pow2_def nat_diff_distrib' power_diff)
next
  case False
  then have n: "nat (52 - int k) = 52 - k" by linarith
  from False have "pow2 (int k - 52) = 1 / 2 ^ (52 - k)"
    by (simp add: pow2_def n)
  also from False have "\<dots> = 2 ^ k / 2 ^ 52"
    by (simp add: power_diff)
  finally show ?thesis .
qed

text \<open>
  From 1 on and below the overflow threshold the rounding is the one that
  \<^verbatim>\<open>formatDistance\<close> uses for its quotient.
\<close>

lemma round_double_to_double:
  assumes "1 \<le> x" and "2 * x + 1 < 2 ^ 1024"
  shows "round_double x = Num (to_double x)"
proof -
  define u :: real where "u = 2 ^ ilog2 (nat \<lfloor>x\<rfloor>) / 2 ^ 52"
  from assms have "2 * \<bar>x\<bar> + 1 < 2 ^ 1024" by simp
  from round_double_finite[OF this] obtain v where v: "round_double x = Num v"
    by blast
  from assms(1) have x: "\<bar>x\<bar> = x" "x \<noteq> 0" "\<not> x < 0" by simp_all
  have ulp: "pow2 (max (binade x) (- 1022) - 52) = u"
    using assms(1) by (simp add: binade_def max_def pow2_ulp u_def)
  have td: "to_double x = real_of_int (round_half_even (x / u)) * u"
    unfolding to_double_def Let_def u_def by (rule refl)
  have "round_double x =
      (if 2 ^ 1024 \<le> real_of_int (round_half_even (x / u)) * u then Infinity
       else Num (real_of_int (round_half_even (x / u)) * u))"
    unfolding round_double_def Let_def x(1) ulp using x(2,3)
    by (simp add: signed_infinity_def)
  with v show ?thesis unfolding td by (simp split: if_splits)
qed

text \<open>
  Examples: a tenth and a negative third, a tie that goes to the even neighbour, the
  smallest subnormal number and the half of it, and the overflow threshold.
\<close>

lemma round_double_examples:
  "round_double (1 / 10) = Num (3602879701896397 / 2 ^ 55)"
  "round_double (- (1 / 3)) = Num (- (6004799503160661 / 2 ^ 54))"
  "round_double (2 ^ 53 + 1) = Num (2 ^ 53)"
  "round_double (1 / 2 ^ 1074) = Num (1 / 2 ^ 1074)"
  "round_double (1 / 2 ^ 1075) = Num 0"
  "round_double (2 ^ 1024 - 2 ^ 970) = Infinity"
  "round_double (- (2 ^ 1024)) = MinusInfinity"
  by (simp_all add: round_eval)

text \<open>
  The rounding of a positive real \<open>t\<close> in the binade \<open>e\<close>: the multiple \<open>N \<times> 2\<^bsup>e-52\<^esup>\<close> from
  which \<open>t\<close> is less than half a spacing away.
\<close>

lemma binade_eighth:
  assumes "1 / 8 \<le> t" and "t < 1 / 4"
  shows "binade t = - 3"
proof -
  from assms have t: "0 < t" by simp
  from assms t have "4 < 1 / t" "1 / t \<le> 8"
    by (simp_all add: field_simps)
  then have "4 < \<lceil>1 / t\<rceil>" "\<lceil>1 / t\<rceil> \<le> 8"
    by (simp_all add: less_ceiling_iff ceiling_le_iff)
  then have "nat \<lceil>1 / t\<rceil> - 1 = 4 \<or> nat \<lceil>1 / t\<rceil> - 1 = 5 \<or>
      nat \<lceil>1 / t\<rceil> - 1 = 6 \<or> nat \<lceil>1 / t\<rceil> - 1 = 7"
    by linarith
  then have "ilog2 (nat \<lceil>1 / t\<rceil> - 1) = 2"
    by (elim disjE) (simp_all add: ilog2.simps)
  with assms show ?thesis by (simp add: binade_def)
qed

lemma binade_half:
  assumes "1 / 2 \<le> t" and "t < 1"
  shows "binade t = - 1"
proof -
  from assms have t: "0 < t" by simp
  from assms t have "1 < 1 / t" "1 / t \<le> 2"
    by (simp_all add: field_simps)
  then have "1 < \<lceil>1 / t\<rceil>" "\<lceil>1 / t\<rceil> \<le> 2"
    by (simp_all add: less_ceiling_iff ceiling_le_iff)
  then have "nat \<lceil>1 / t\<rceil> - 1 = 1"
    by linarith
  then have "ilog2 (nat \<lceil>1 / t\<rceil> - 1) = 0"
    by (simp add: ilog2.simps)
  with assms show ?thesis by (simp add: binade_def)
qed

lemma round_double_near:
  assumes "0 < t" and "binade t = e" and "- 1022 \<le> e"
    and "real_of_int N - 1 / 2 < t / pow2 (e - 52)"
    and "t / pow2 (e - 52) < real_of_int N + 1 / 2"
    and "real_of_int N * pow2 (e - 52) < 2 ^ 1024"
  shows "round_double t = Num (real_of_int N * pow2 (e - 52))"
proof -
  have "round_half_even (t / pow2 (e - 52)) = N"
    using assms(4,5) by (rule round_half_even_near)
  with assms(1,2,3,6) show ?thesis
    by (simp add: round_double_def Let_def max_def)
qed

subsection \<open>Correctly rounded sines and cosines\<close>

text \<open>
  The sine and the cosine lie within \<open>x\<^sup>n / n!\<close> of their Taylor polynomials of degree below
  \<open>n\<close>. At \<open>x = 7545853602163669 / 2\<^bsup>55\<^esup>\<close>, the double that \<^verbatim>\<open>(12 * Math.PI) / 180\<close>
  evaluates to, and at \<^verbatim>\<open>Math.PI / 2\<close> this places them inside one rounding interval.
\<close>

lemma sin_taylor:
  assumes "0 < x" and "0 < n"
  shows "\<bar>sin x - (\<Sum>m<n. sin_coeff m * x ^ m)\<bar> \<le> x ^ n / fact n"
proof -
  from Maclaurin_sin_expansion3[OF assms(2) assms(1)]
  obtain t where t: "sin x = (\<Sum>m<n. sin_coeff m * x ^ m) + sin (t + 1 / 2 * real n * pi) / fact n * x ^ n"
    by blast
  have "\<bar>sin (t + 1 / 2 * real n * pi)\<bar> * (x ^ n / fact n) \<le> 1 * (x ^ n / fact n)"
    using assms(1) by (intro mult_right_mono abs_sin_le_one) simp
  then have "\<bar>sin (t + 1 / 2 * real n * pi) / fact n * x ^ n\<bar> \<le> x ^ n / fact n"
    using assms(1) by (simp add: abs_mult)
  with t show ?thesis by simp
qed

lemma cos_taylor:
  assumes "0 < x" and "0 < n"
  shows "\<bar>cos x - (\<Sum>m<n. cos_coeff m * x ^ m)\<bar> \<le> x ^ n / fact n"
proof -
  from Maclaurin_cos_expansion2[OF assms(1) assms(2)]
  obtain t where t: "cos x = (\<Sum>m<n. cos_coeff m * x ^ m) + cos (t + 1 / 2 * real n * pi) / fact n * x ^ n"
    by blast
  have "\<bar>cos (t + 1 / 2 * real n * pi)\<bar> * (x ^ n / fact n) \<le> 1 * (x ^ n / fact n)"
    using assms(1) by (intro mult_right_mono abs_cos_le_one) simp
  then have "\<bar>cos (t + 1 / 2 * real n * pi) / fact n * x ^ n\<bar> \<le> x ^ n / fact n"
    using assms(1) by (simp add: abs_mult)
  with t show ?thesis by simp
qed

lemma sin_sum13:
  "(\<Sum>m<13. sin_coeff m * x ^ m) =
     x - x ^ 3 / 6 + x ^ 5 / 120 - x ^ 7 / 5040 + x ^ 9 / 362880 - x ^ 11 / 39916800"
  by (simp add: sin_coeff_def lessThan_nat_numeral lessThan_Suc fact_numeral)

lemma cos_sum14:
  "(\<Sum>m<14. cos_coeff m * x ^ m) =
     1 - x ^ 2 / 2 + x ^ 4 / 24 - x ^ 6 / 720 + x ^ 8 / 40320 - x ^ 10 / 3628800 +
     x ^ 12 / 479001600"
  by (simp add: cos_coeff_def lessThan_nat_numeral lessThan_Suc fact_numeral)

lemma sin_sum23:
  "(\<Sum>m<23. sin_coeff m * x ^ m) =
     x - x ^ 3 / 6 + x ^ 5 / 120 - x ^ 7 / 5040 + x ^ 9 / 362880 - x ^ 11 / 39916800 +
     x ^ 13 / 6227020800 - x ^ 15 / 1307674368000 + x ^ 17 / 355687428096000 -
     x ^ 19 / 121645100408832000 + x ^ 21 / 51090942171709440000"
  by (simp add: sin_coeff_def lessThan_nat_numeral lessThan_Suc fact_numeral)

lemma sin_phi_bounds:
  "(7490808106342645 - 1 / 2) / 2 ^ 55 < sin (7545853602163669 / 2 ^ 55 :: real)"
  "sin (7545853602163669 / 2 ^ 55 :: real) < (7490808106342645 + 1 / 2) / 2 ^ 55"
proof -
  let ?x = "7545853602163669 / 2 ^ 55 :: real"
  have "\<bar>sin ?x - (\<Sum>m<13. sin_coeff m * ?x ^ m)\<bar> \<le> ?x ^ 13 / fact 13"
    by (rule sin_taylor) simp_all
  then have "(\<Sum>m<13. sin_coeff m * ?x ^ m) - ?x ^ 13 / fact 13 \<le> sin ?x"
    "sin ?x \<le> (\<Sum>m<13. sin_coeff m * ?x ^ m) + ?x ^ 13 / fact 13"
    by linarith+
  moreover have "(7490808106342645 - 1 / 2) / 2 ^ 55 < (\<Sum>m<13. sin_coeff m * ?x ^ m) - ?x ^ 13 / fact 13"
    unfolding sin_sum13 by (simp add: fact_numeral power_divide)
  moreover have "(\<Sum>m<13. sin_coeff m * ?x ^ m) + ?x ^ 13 / fact 13 < (7490808106342645 + 1 / 2) / 2 ^ 55"
    unfolding sin_sum13 by (simp add: fact_numeral power_divide)
  ultimately show "(7490808106342645 - 1 / 2) / 2 ^ 55 < sin ?x"
    "sin ?x < (7490808106342645 + 1 / 2) / 2 ^ 55"
    by linarith+
qed

lemma cos_phi_bounds:
  "(8810370340356224 - 1 / 2) / 2 ^ 53 < cos (7545853602163669 / 2 ^ 55 :: real)"
  "cos (7545853602163669 / 2 ^ 55 :: real) < (8810370340356224 + 1 / 2) / 2 ^ 53"
proof -
  let ?x = "7545853602163669 / 2 ^ 55 :: real"
  have "\<bar>cos ?x - (\<Sum>m<14. cos_coeff m * ?x ^ m)\<bar> \<le> ?x ^ 14 / fact 14"
    by (rule cos_taylor) simp_all
  then have "(\<Sum>m<14. cos_coeff m * ?x ^ m) - ?x ^ 14 / fact 14 \<le> cos ?x"
    "cos ?x \<le> (\<Sum>m<14. cos_coeff m * ?x ^ m) + ?x ^ 14 / fact 14"
    by linarith+
  moreover have "(8810370340356224 - 1 / 2) / 2 ^ 53 < (\<Sum>m<14. cos_coeff m * ?x ^ m) - ?x ^ 14 / fact 14"
    unfolding cos_sum14 by (simp add: fact_numeral power_divide)
  moreover have "(\<Sum>m<14. cos_coeff m * ?x ^ m) + ?x ^ 14 / fact 14 < (8810370340356224 + 1 / 2) / 2 ^ 53"
    unfolding cos_sum14 by (simp add: fact_numeral power_divide)
  ultimately show "(8810370340356224 - 1 / 2) / 2 ^ 53 < cos ?x"
    "cos ?x < (8810370340356224 + 1 / 2) / 2 ^ 53"
    by linarith+
qed

lemma sin_half_pi_bound:
  "1 - 1 / 2 ^ 54 < sin (884279719003555 / 2 ^ 49 :: real)"
proof -
  let ?y = "884279719003555 / 2 ^ 49 :: real"
  have "\<bar>sin ?y - (\<Sum>m<23. sin_coeff m * ?y ^ m)\<bar> \<le> ?y ^ 23 / fact 23"
    by (rule sin_taylor) simp_all
  then have "(\<Sum>m<23. sin_coeff m * ?y ^ m) - ?y ^ 23 / fact 23 \<le> sin ?y"
    by linarith
  moreover have "1 - 1 / 2 ^ 54 < (\<Sum>m<23. sin_coeff m * ?y ^ m) - ?y ^ 23 / fact 23"
    unfolding sin_sum23 by (simp add: fact_numeral power_divide)
  ultimately show ?thesis by linarith
qed

lemma round_sin_phi:
  "round_double (sin (7545853602163669 / 2 ^ 55)) = Num (7490808106342645 / 2 ^ 55)"
proof -
  let ?t = "sin (7545853602163669 / 2 ^ 55 :: real)"
  note b = sin_phi_bounds
  have range: "1 / 8 \<le> ?t" "?t < 1 / 4"
    using b by simp_all
  have "round_double ?t = Num (real_of_int 7490808106342645 * pow2 (- 3 - 52))"
  proof (rule round_double_near)
    show "0 < ?t" using range by simp
    show "binade ?t = - 3" using range by (rule binade_eighth)
    show "real_of_int 7490808106342645 - 1 / 2 < ?t / pow2 (- 3 - 52)"
      using b(1) by (simp add: pow2_def)
    show "?t / pow2 (- 3 - 52) < real_of_int 7490808106342645 + 1 / 2"
      using b(2) by (simp add: pow2_def)
  qed (simp_all add: pow2_def)
  then show ?thesis by (simp add: pow2_def)
qed

lemma round_cos_phi:
  "round_double (cos (7545853602163669 / 2 ^ 55)) = Num (68831018284033 / 2 ^ 46)"
proof -
  let ?t = "cos (7545853602163669 / 2 ^ 55 :: real)"
  note b = cos_phi_bounds
  have range: "1 / 2 \<le> ?t" "?t < 1"
    using b by simp_all
  have "round_double ?t = Num (real_of_int 8810370340356224 * pow2 (- 1 - 52))"
  proof (rule round_double_near)
    show "0 < ?t" using range by simp
    show "binade ?t = - 1" using range by (rule binade_half)
    show "real_of_int 8810370340356224 - 1 / 2 < ?t / pow2 (- 1 - 52)"
      using b(1) by (simp add: pow2_def)
    show "?t / pow2 (- 1 - 52) < real_of_int 8810370340356224 + 1 / 2"
      using b(2) by (simp add: pow2_def)
  qed (simp_all add: pow2_def)
  then show ?thesis by (simp add: pow2_def)
qed

lemma round_sin_half_pi:
  "round_double (sin (884279719003555 / 2 ^ 49)) = Num 1"
proof (cases "sin (884279719003555 / 2 ^ 49 :: real) = 1")
  case True
  then show ?thesis by (simp add: round_eval)
next
  case False
  let ?t = "sin (884279719003555 / 2 ^ 49 :: real)"
  note b = sin_half_pi_bound
  from False have less: "?t < 1"
    using sin_le_one[of "884279719003555 / 2 ^ 49"] by linarith
  have half: "1 / 2 \<le> ?t" using b by simp
  have "round_double ?t = Num (real_of_int 9007199254740992 * pow2 (- 1 - 52))"
  proof (rule round_double_near)
    show "0 < ?t" using half by simp
    show "binade ?t = - 1" using half less by (rule binade_half)
    show "real_of_int 9007199254740992 - 1 / 2 < ?t / pow2 (- 1 - 52)"
      using b by (simp add: pow2_def)
    show "?t / pow2 (- 1 - 52) < real_of_int 9007199254740992 + 1 / 2"
      using less by (simp add: pow2_def)
  qed (simp_all add: pow2_def)
  then show ?thesis by (simp add: pow2_def)
qed

subsection \<open>Identical coordinates\<close>

text \<open>
  For identical coordinates with a latitude of at most 90 degrees either way the result
  is exactly 0, whatever the engine computes, as long as its cosines are at most 1 in
  absolute value and its square root of 1 is 1: both differences are 0, so
  \<^verbatim>\<open>a\<close> is \<open>0 + c \<times> 0 \<times> 0\<close> for a finite \<open>c\<close>, and \<^verbatim>\<open>Math.atan2(0, 1)\<close> is 0. The
  correctly rounded engine is such an engine.
\<close>

lemma calculateDistance_identical:
  assumes lat: "\<bar>lat\<bar> \<le> 90"
    and cos: "\<And>x. \<bar>cos_impl E x\<bar> \<le> 1"
    and root: "sqrt_impl E 1 = 1"
  shows "calculateDistance E (Num lat) (Num lon) (Num lat) (Num lon) = Num 0"
proof -
  have zero: "round_double 0 = Num 0" by (simp add: round_double_def)
  have dphi: "js_divide (js_times (js_minus (Num lat) (Num lat)) Math_PI) (Num 180) = Num 0"
    by (simp add: js_minus_def Math_PI_def zero)
  have dlambda: "js_divide (js_times (js_minus (Num lon) (Num lon)) Math_PI) (Num 180) = Num 0"
    by (simp add: js_minus_def Math_PI_def zero)
  have half: "js_divide (Num 0) (Num 2) = Num 0" by (simp add: zero)
  have sin0: "Math_sin E (Num 0) = Num 0" by simp
  have "\<bar>lat * (884279719003555 / 2 ^ 48)\<bar> \<le> 90 * 4"
    unfolding abs_mult using lat by (intro mult_mono) simp_all
  then have "2 * \<bar>lat * (884279719003555 / 2 ^ 48)\<bar> + 1 \<le> 721" by simp
  moreover have "(721::real) < 2 ^ 1024" by simp
  ultimately have "2 * \<bar>lat * (884279719003555 / 2 ^ 48)\<bar> + 1 < 2 ^ 1024" "2 * \<bar>lat * (884279719003555 / 2 ^ 48)\<bar> + 1 \<le> 721"
    by linarith+
  with round_double_finite[of "lat * (884279719003555 / 2 ^ 48)"]
  obtain v where v: "round_double (lat * (884279719003555 / 2 ^ 48)) = Num v" "\<bar>v\<bar> \<le> 721"
    by force
  from v(2) have "2 * \<bar>v / 180\<bar> + 1 \<le> 721" by simp
  moreover have "(721::real) < 2 ^ 1024" by simp
  ultimately have "2 * \<bar>v / 180\<bar> + 1 < 2 ^ 1024" by linarith
  with round_double_finite[of "v / 180"]
  obtain p where p: "round_double (v / 180) = Num p" by blast
  have phi: "js_divide (js_times (Num lat) Math_PI) (Num 180) = Num p"
    using v(1) p by (simp add: Math_PI_def)
  obtain c where c: "Math_cos E (Num p) = Num c" "\<bar>c\<bar> \<le> 1"
    using cos[of p] by (cases "p = 0") simp_all
  have "\<bar>c * c\<bar> \<le> 1 * 1"
    unfolding abs_mult using c(2) by (intro mult_mono) simp_all
  then have "2 * \<bar>c * c\<bar> + 1 \<le> 3" by simp
  moreover have "(3::real) < 2 ^ 1024" by simp
  ultimately have "2 * \<bar>c * c\<bar> + 1 < 2 ^ 1024" by linarith
  with round_double_finite[of "c * c"]
  obtain q where q: "round_double (c * c) = Num q" by blast
  have one: "js_minus (Num 1) (Num 0) = Num 1"
    by (simp add: js_minus_def round_eval)
  show ?thesis
    unfolding calculateDistance_def Let_def dphi dlambda half sin0 phi c(1)
    by (simp add: q zero one root)
qed

lemma calculateDistance_identical_rounded:
  assumes "\<bar>lat\<bar> \<le> 90"
  shows "calculateDistance correctly_rounded (Num lat) (Num lon) (Num lat) (Num lon) = Num 0"
proof (rule calculateDistance_identical[OF assms])
  fix x :: real
  from round_double_unit[of "cos x"] obtain v where "round_double (cos x) = Num v" "\<bar>v\<bar> \<le> 1"
    by auto
  then show "\<bar>cos_impl correctly_rounded x\<bar> \<le> 1"
    by (simp add: correctly_rounded_def)
next
  show "sqrt_impl correctly_rounded 1 = 1"
    by (simp add: correctly_rounded_def round_eval)
qed

subsection \<open>Antipodal points\<close>

text \<open>The roundings in \<^verbatim>\<open>calculateDistance(12, 0, -12, 180)\<close>.\<close>

lemma round_double_steps:
  "round_double 180 = Num 180"
  "round_double 24 = Num 24"
  "round_double 1 = Num 1"
  "round_double (2652839157010665 / 70368744177664) = Num (2652839157010665 / 70368744177664)"
  "round_double (176855943800711 / 844424930131968) = Num (7545853602163669 / 36028797018963968)"
  "round_double (2652839157010665 / 35184372088832) = Num (2652839157010665 / 35184372088832)"
  "round_double (176855943800711 / 422212465065984) = Num (7545853602163669 / 18014398509481984)"
  "round_double (39792587355159975 / 70368744177664) = Num (4974073419394997 / 8796093022208)"
  "round_double (4974073419394997 / 1583296743997440) = Num (884279719003555 / 281474976710656)"
  "round_double (7545853602163669 / 36028797018963968) = Num (7545853602163669 / 36028797018963968)"
  "round_double (884279719003555 / 562949953421312) = Num (884279719003555 / 562949953421312)"
  "round_double (56112206086048683123078145596025 / 1298074214633706907132624082305024) =
     Num (6229706315924309 / 144115188075855872)"
  "round_double (4737709078016885151862745089 / 4951760157141521099596496896) =
     Num (2154460652498931 / 2251799813685248)"
  "round_double (2154460652498931 / 2251799813685248) = Num (2154460652498931 / 2251799813685248)"
  "round_double (144115188075855893 / 144115188075855872) = Num (4503599627370497 / 4503599627370496)"
  "round_double (1 / 4503599627370496) = Num (1 / 4503599627370496)"
  by (simp_all add: round_eval)

lemma greatCircleDistance_antipodal: "greatCircleDistance 12 0 (- 12) 180 = 6371000 * pi"
proof -
  have unit: "cos (pi / 15) * cos (pi / 15) + sin (pi / 15) * sin (pi / 15) = 1"
    by (rule sin_cos_squared_add3)
  have "dot (unit_vector 12 0) (unit_vector (- 12) 180) =
      - (sin (pi / 15) * sin (pi / 15)) - cos (pi / 15) * cos (pi / 15)"
    by (simp add: dot_def unit_vector_def)
  with unit have "dot (unit_vector 12 0) (unit_vector (- 12) 180) = - 1"
    by linarith
  then show ?thesis by (simp add: greatCircleDistance_def)
qed

text \<open>
  Claim C9 does not hold of the code: for the antipodal points at latitude 12, longitude
  0 and latitude -12, longitude 180, \<^verbatim>\<open>calculateDistance\<close> returns \<^verbatim>\<open>NaN\<close>, where the
  great-circle distance is \<open>6371000 \<pi>\<close> metres. The call reads the sine and the cosine at
  four arguments; when the engine returns the values below there (the correctly rounded
  ones), the sum \<^verbatim>\<open>a\<close> is rounded to \<open>1 + 2\<^bsup>-52\<^esup>\<close>, \<^verbatim>\<open>1 - a\<close> is negative and
  \<^verbatim>\<open>Math.sqrt(1 - a)\<close> is \<^verbatim>\<open>NaN\<close>.
\<close>

theorem calculateDistance_not_a_number:
  assumes "sin_impl E (- (7545853602163669 / 2 ^ 55)) = - (7490808106342645 / 2 ^ 55)"
    and "cos_impl E (7545853602163669 / 2 ^ 55) = 68831018284033 / 2 ^ 46"
    and "cos_impl E (- (7545853602163669 / 2 ^ 55)) = 68831018284033 / 2 ^ 46"
    and "sin_impl E (884279719003555 / 2 ^ 49) = 1"
  shows "calculateDistance E (Num 12) (Num 0) (Num (- 12)) (Num 180) = NaN \<and>
         greatCircleDistance 12 0 (- 12) 180 = 6371000 * pi"
proof -
  have phi1: "js_divide (js_times (Num 12) Math_PI) (Num 180) = Num (7545853602163669 / 2 ^ 55)"
    by (simp add: Math_PI_def round_double_steps)
  have phi2: "js_divide (js_times (Num (- 12)) Math_PI) (Num 180) = Num (- (7545853602163669 / 2 ^ 55))"
    by (simp add: Math_PI_def round_double_minus round_double_steps)
  have dphi: "js_divide (js_times (js_minus (Num (- 12)) (Num 12)) Math_PI) (Num 180) =
      Num (- (7545853602163669 / 2 ^ 54))"
    by (simp add: Math_PI_def js_minus_def round_double_minus round_double_steps)
  have dlambda: "js_divide (js_times (js_minus (Num 180) (Num 0)) Math_PI) (Num 180) =
      Num (884279719003555 / 2 ^ 48)"
    by (simp add: Math_PI_def js_minus_def round_double_steps)
  have half_dphi: "js_divide (Num (- (7545853602163669 / 2 ^ 54))) (Num 2) =
      Num (- (7545853602163669 / 2 ^ 55))"
    by (simp add: round_double_minus round_double_steps)
  have half_dlambda: "js_divide (Num (884279719003555 / 2 ^ 48)) (Num 2) =
      Num (884279719003555 / 2 ^ 49)"
    by (simp add: round_double_steps)
  have sin_dphi: "Math_sin E (Num (- (7545853602163669 / 2 ^ 55))) = Num (- (7490808106342645 / 2 ^ 55))"
    using assms(1) by simp
  have cos_phi1: "Math_cos E (Num (7545853602163669 / 2 ^ 55)) = Num (68831018284033 / 2 ^ 46)"
    using assms(2) by simp
  have cos_phi2: "Math_cos E (Num (- (7545853602163669 / 2 ^ 55))) = Num (68831018284033 / 2 ^ 46)"
    using assms(3) by simp
  have sin_dlambda: "Math_sin E (Num (884279719003555 / 2 ^ 49)) = Num 1"
    using assms(4) by simp
  have a: "js_plus
      (js_times (Num (- (7490808106342645 / 2 ^ 55))) (Num (- (7490808106342645 / 2 ^ 55))))
      (js_times (js_times (js_times (Num (68831018284033 / 2 ^ 46)) (Num (68831018284033 / 2 ^ 46)))
         (Num 1)) (Num 1)) = Num (4503599627370497 / 2 ^ 52)"
    by (simp add: round_double_steps)
  have one_minus_a: "js_minus (Num 1) (Num (4503599627370497 / 2 ^ 52)) = Num (- (1 / 2 ^ 52))"
    by (simp add: js_minus_def round_double_minus round_double_steps)
  have root: "Math_sqrt E (Num (- (1 / 2 ^ 52))) = NaN"
    by simp
  have "calculateDistance E (Num 12) (Num 0) (Num (- 12)) (Num 180) = NaN"
    unfolding calculateDistance_def Let_def phi1 phi2 dphi dlambda half_dphi half_dlambda
      sin_dphi cos_phi1 cos_phi2 sin_dlambda a one_minus_a root
    by (cases "Math_sqrt E (Num (4503599627370497 / 2 ^ 52))") simp_all
  then show ?thesis
    using greatCircleDistance_antipodal by (rule conjI)
qed

text \<open>The correctly rounded engine returns these four values.\<close>

theorem calculateDistance_not_a_number_witness:
  "calculateDistance correctly_rounded (Num 12) (Num 0) (Num (- 12)) (Num 180) = NaN \<and>
   greatCircleDistance 12 0 (- 12) 180 = 6371000 * pi"
proof (rule calculateDistance_not_a_number)
  show "sin_impl correctly_rounded (- (7545853602163669 / 2 ^ 55)) = - (7490808106342645 / 2 ^ 55)"
    using round_sin_phi by (simp add: correctly_rounded_def round_double_minus)
  show "cos_impl correctly_rounded (7545853602163669 / 2 ^ 55) = 68831018284033 / 2 ^ 46"
    using round_cos_phi by (simp add: correctly_rounded_def)
  show "cos_impl correctly_rounded (- (7545853602163669 / 2 ^ 55)) = 68831018284033 / 2 ^ 46"
    using round_cos_phi by (simp add: correctly_rounded_def)
  show "sin_impl correctly_rounded (884279719003555 / 2 ^ 49) = 1"
    using round_sin_half_pi by (simp add: correctly_rounded_def)
qed

end
